theory Spec2Isabelle
  imports Main "HOL-Library.AList"
begin

section \<open>Values and collaborators\<close>

text \<open>
  Tool arguments are untyped structured values (\<^verbatim>\<open>any\<close> in the source). Object members are
  kept as a list of key/value pairs.
\<close>

datatype json =
    JNull
  | JBool bool
  | JNum int
  | JStr string
  | JArr "json list"
  | JObj "(string \<times> json) list"

text \<open>
  The permission resolver imports \<^verbatim>\<open>deepEqual\<close> from \<^verbatim>\<open>@/utils/deepEqual\<close> and the two
  prompt constants \<^verbatim>\<open>PLAN_FAKE_REJECT\<close> and \<^verbatim>\<open>PLAN_FAKE_RESTART\<close> from \<^verbatim>\<open>../sdk/prompts\<close>;
  \<^verbatim>\<open>session.client.sessionId\<close> belongs to the session object. None of them is defined in
  the files under study, so they are parameters of every operation, gathered in one record.
\<close>

record env =
  deepEqual :: "json \<Rightarrow> json \<Rightarrow> bool"
  PLAN_FAKE_REJECT :: string
  PLAN_FAKE_RESTART :: string
  sessionId :: string

section \<open>Data of the permission resolver\<close>

text \<open>An element of \<^verbatim>\<open>toolCalls\<close>: \<^verbatim>\<open>{ id, name, input, used }\<close>.\<close>

record tool_call =
  tc_id :: string
  tc_name :: string
  tc_input :: json
  used :: bool

text \<open>
  The request object handed to the permission server's callback. The queue timeout finds
  its entry with \<^verbatim>\<open>p.request === request\<close>, which compares object identity; \<open>req_addr\<close> is
  that identity.
\<close>

record request =
  req_addr :: nat
  req_name :: string
  req_arguments :: json

text \<open>What a permission promise resolves to: \<^verbatim>\<open>{ approved, reason?, mode? }\<close>.\<close>

record response =
  approved :: bool
  reason :: "string option"
  mode :: "string option"

text \<open>The \<^verbatim>\<open>PermissionResponse\<close> message of the \<^verbatim>\<open>permission\<close> handler.\<close>

record permission_response =
  msg_id :: string
  msg_approved :: bool
  msg_reason :: "string option"
  msg_mode :: "string option"

text \<open>\<^verbatim>\<open>new Error(message)\<close>.\<close>

datatype error = Error string

text \<open>
  Promises live in a store, addressed by number. A promise is pending (\<open>settled = None\<close>),
  resolved (\<open>Inr\<close>) or rejected (\<open>Inl\<close>). The only reactions the resolver ever registers are
  \<^verbatim>\<open>promise.then(() => clearTimeout(timeout)).catch(() => clearTimeout(timeout))\<close>, which is
  \<open>ClearTimeout\<close>, and \<^verbatim>\<open>.then(pending.resolve, pending.reject)\<close>, which is \<open>Settle\<close> of the
  queued caller's promise.
\<close>

datatype reaction = ClearTimeout nat | Settle nat

record promise =
  settled :: "(error + response) option"
  reactions :: "reaction list"

text \<open>
  The callbacks stored in the \<^verbatim>\<open>requests\<close> map: the plain \<^verbatim>\<open>resolve\<close> of a promise, or the
  \<^verbatim>\<open>wrappedResolve\<close> closure around it that is installed for the plan-exit tool.
\<close>

datatype resolver = Resolve nat | WrappedResolve nat

text \<open>
  An element of \<^verbatim>\<open>pendingPermissionRequests\<close>. Its \<^verbatim>\<open>resolve\<close> and \<^verbatim>\<open>reject\<close> belong to one
  promise, \<open>pending_promise\<close>; \<open>timeout\<close> is the handle returned by \<^verbatim>\<open>setTimeout\<close>.
\<close>

record pending_request =
  request :: request
  pending_promise :: nat
  timeout :: nat

text \<open>
  The two closures given to \<^verbatim>\<open>setTimeout\<close>: the 30 second one captures the request object
  and the \<^verbatim>\<open>reject\<close> of the caller's promise, the 4.5 minute one captures the tool call id.
\<close>

datatype timer_action = QueueTimeout request nat | DecisionTimeout string

text \<open>Entries of \<^verbatim>\<open>currentState.requests\<close> and \<^verbatim>\<open>currentState.completedRequests\<close>.\<close>

record agent_request =
  tool :: string
  arguments :: json
  createdAt :: nat

text \<open>
  A completed entry is written as \<^verbatim>\<open>{...request, completedAt, status, reason}\<close>. The spread
  copies the own enumerable members of \<^verbatim>\<open>request\<close>: the three members of a pending entry, or
  none at all when \<^verbatim>\<open>request\<close> is a member inherited from \<^verbatim>\<open>Object.prototype\<close> (see
  \<open>get_member\<close> below).
\<close>

record completed_request =
  request_members :: "agent_request option"
  completedAt :: nat
  status :: string
  status_reason :: "string option"

text \<open>
  The externally synchronised agent state. Both members may be absent
  (\<^verbatim>\<open>currentState.requests?.[id]\<close>, \<^verbatim>\<open>currentState.requests || {}\<close>), hence the options. A
  plain object is the association list of its own members in insertion order (JavaScript
  lists integer-like keys first; the statements below read objects by key) together with
  its prototype. The \<^verbatim>\<open>requests\<close> object is always built by an object literal, so its
  prototype is \<^verbatim>\<open>Object.prototype\<close>. The prototype of the \<^verbatim>\<open>completedRequests\<close> object can be
  replaced by the assignment in \<^verbatim>\<open>reset()\<close>; \<open>None\<close> stands for \<^verbatim>\<open>Object.prototype\<close>.
\<close>

record agent_state =
  st_requests :: "(string \<times> agent_request) list option"
  completedRequests :: "(string \<times> completed_request) list option"
  completedRequests_prototype :: "completed_request option"

text \<open>An argument list of \<^verbatim>\<open>session.pushClient.sendToAllDevices\<close>.\<close>

record push =
  push_title :: string
  push_body :: string
  push_sessionId :: string
  requestId :: string
  push_tool :: string
  push_type :: string

text \<open>
  The closure state of \<^verbatim>\<open>startPermissionResolver\<close> together with the collaborators it
  writes to: the armed timers of the event loop, the promise store, the agent state behind
  \<^verbatim>\<open>updateAgentState\<close>, the session's instruction queue (instruction and permission mode)
  and the notifications sent. The three counters allocate timer handles, promises and
  request objects.
\<close>

record resolver_state =
  toolCalls :: "tool_call list"
  responses :: "(string \<times> permission_response) list"
  requests :: "(string \<times> resolver) list"
  pendingPermissionRequests :: "pending_request list"
  timers :: "(nat \<times> timer_action) list"
  promises :: "(nat \<times> promise) list"
  agentState :: agent_state
  session_queue :: "(string \<times> string) list"
  pushes :: "push list"
  next_timer :: nat
  next_promise :: nat
  next_addr :: nat

definition init :: resolver_state where
  "init = \<lparr> toolCalls = [], responses = [], requests = [], pendingPermissionRequests = [],
            timers = [], promises = [],
            agentState = \<lparr> st_requests = None, completedRequests = None,
                           completedRequests_prototype = None \<rparr>,
            session_queue = [], pushes = [],
            next_timer = 0, next_promise = 0, next_addr = 0 \<rparr>"

text \<open>Content blocks and messages of the SDK stream, as far as \<^verbatim>\<open>onMessage\<close> reads them.\<close>

datatype block =
    ToolUse string string json
  | ToolResult "string option"
  | OtherBlock

datatype sdk_message =
    Assistant "block list option"
  | User "block list option"
  | OtherMessage

section \<open>The tool call ledger\<close>

text \<open>
  \<^verbatim>\<open>resolveToolCallId\<close>: the loop \<^verbatim>\<open>for (let i = toolCalls.length - 1; i >= 0; i--)\<close>. The
  argument \<open>Suc i\<close> stands for the loop index \<open>i\<close>, and \<open>0\<close> for the exit of the loop.
\<close>

fun resolve_from :: "env \<Rightarrow> string \<Rightarrow> json \<Rightarrow> tool_call list \<Rightarrow> nat \<Rightarrow> string option \<times> tool_call list" where
  "resolve_from e name args calls 0 = (None, calls)"
| "resolve_from e name args calls (Suc i) =
     (let call = calls ! i in
      if tc_name call = name \<and> deepEqual e (tc_input call) args then
        (if used call then (None, calls)
         else (Some (tc_id call), calls[i := call\<lparr>used := True\<rparr>]))
      else resolve_from e name args calls i)"

definition resolveToolCallId :: "env \<Rightarrow> string \<Rightarrow> json \<Rightarrow> tool_call list \<Rightarrow> string option \<times> tool_call list" where
  "resolveToolCallId e name args calls = resolve_from e name args calls (length calls)"

text \<open>The test of the scan, named for the statements below.\<close>

definition call_matches :: "env \<Rightarrow> string \<Rightarrow> json \<Rightarrow> tool_call \<Rightarrow> bool" where
  "call_matches e name args call \<longleftrightarrow> tc_name call = name \<and> deepEqual e (tc_input call) args"

section \<open>Promises, timers and the agent state\<close>

text \<open>\<^verbatim>\<open>x || {}\<close> and the spread \<^verbatim>\<open>{...x}\<close> of a possibly absent object.\<close>

definition entries :: "(string \<times> 'a) list option \<Rightarrow> (string \<times> 'a) list" where
  "entries obj = (case obj of None \<Rightarrow> [] | Some kvs \<Rightarrow> kvs)"

text \<open>
  Reading \<^verbatim>\<open>obj?.[key]\<close> on a plain object. An absent object gives \<^verbatim>\<open>undefined\<close>. An own member
  gives its value. Otherwise the read goes to \<^verbatim>\<open>Object.prototype\<close>, whose members are listed
  here as the engine has them: for these keys the result is a function (for \<^verbatim>\<open>__proto__\<close> the
  prototype object itself), which is truthy, has no member \<^verbatim>\<open>tool\<close>, and has no own enumerable
  member for a spread to copy.
\<close>

definition object_prototype_members :: "string list" where
  "object_prototype_members =
     [''constructor'', ''__defineGetter__'', ''__defineSetter__'', ''hasOwnProperty'',
      ''__lookupGetter__'', ''__lookupSetter__'', ''isPrototypeOf'', ''propertyIsEnumerable'',
      ''toString'', ''valueOf'', ''__proto__'', ''toLocaleString'']"

datatype 'a member = Own 'a | Inherited | Absent

definition get_member :: "(string \<times> 'a) list option \<Rightarrow> string \<Rightarrow> 'a member" where
  "get_member obj key =
     (case obj of
        None \<Rightarrow> Absent
      | Some kvs \<Rightarrow>
          (case map_of kvs key of
             Some v \<Rightarrow> Own v
           | None \<Rightarrow> if key \<in> set object_prototype_members then Inherited else Absent))"

text \<open>The members that \<^verbatim>\<open>{...request}\<close> copies.\<close>

fun spread_member :: "'a member \<Rightarrow> 'a option" where
  "spread_member (Own v) = Some v"
| "spread_member Inherited = None"
| "spread_member Absent = None"

text \<open>
  The assignment \<^verbatim>\<open>obj[key] = value\<close> on a plain object, given as its own members and its
  prototype. For the key \<^verbatim>\<open>__proto__\<close> without an own member of that name the assignment runs
  the setter inherited from \<^verbatim>\<open>Object.prototype\<close>: the value becomes the prototype of the
  object and no own member is added. Every other assignment sets an own member. (A
  computed key in an object literal, \<^verbatim>\<open>{[key]: value}\<close>, always defines an own member.)
\<close>

definition assign_member ::
    "string \<Rightarrow> 'a \<Rightarrow> (string \<times> 'a) list \<times> 'a option \<Rightarrow> (string \<times> 'a) list \<times> 'a option" where
  "assign_member key v obj =
     (if key = ''__proto__'' \<and> map_of (fst obj) key = None
      then (fst obj, Some v)
      else (AList.update key v (fst obj), snd obj))"

text \<open>\<^verbatim>\<open>Array.prototype.findIndex\<close>, with \<open>None\<close> for \<^verbatim>\<open>-1\<close>, and \<^verbatim>\<open>splice(idx, 1)\<close>.\<close>

fun findIndex :: "('a \<Rightarrow> bool) \<Rightarrow> 'a list \<Rightarrow> nat option" where
  "findIndex P [] = None"
| "findIndex P (x # xs) =
     (if P x then Some 0 else (case findIndex P xs of None \<Rightarrow> None | Some k \<Rightarrow> Some (Suc k)))"

definition splice1 :: "nat \<Rightarrow> 'a list \<Rightarrow> 'a list" where
  "splice1 idx xs = take idx xs @ drop (Suc idx) xs"

text \<open>\<^verbatim>\<open>session.client.updateAgentState(fn)\<close> applies \<open>fn\<close> to the current agent state.\<close>

definition updateAgentState :: "(agent_state \<Rightarrow> agent_state) \<Rightarrow> resolver_state \<Rightarrow> resolver_state" where
  "updateAgentState fn s = s\<lparr>agentState := fn (agentState s)\<rparr>"

definition clearTimeout :: "nat \<Rightarrow> resolver_state \<Rightarrow> resolver_state" where
  "clearTimeout t s = s\<lparr>timers := AList.delete t (timers s)\<rparr>"

text \<open>
  Settling a promise: a promise that is already settled ignores the call; otherwise the
  outcome is stored and the reactions run with it. The target of \<open>Settle\<close> is the promise of
  a queued caller, on which the resolver registers no reaction, so its outcome is stored
  and nothing further runs. Reactions are microtasks: they run before any other timer or
  message is handled.
\<close>

fun run_reaction :: "error + response \<Rightarrow> reaction \<Rightarrow> resolver_state \<Rightarrow> resolver_state" where
  "run_reaction v (ClearTimeout t) s = clearTimeout t s"
| "run_reaction v (Settle q) s =
     (case map_of (promises s) q of
        None \<Rightarrow> s
      | Some pr \<Rightarrow>
          if settled pr = None
          then s\<lparr>promises := AList.update q (pr\<lparr>settled := Some v\<rparr>) (promises s)\<rparr>
          else s)"

definition settle_promise :: "nat \<Rightarrow> error + response \<Rightarrow> resolver_state \<Rightarrow> resolver_state" where
  "settle_promise p v s =
     (case map_of (promises s) p of
        None \<Rightarrow> s
      | Some pr \<Rightarrow>
          if settled pr = None
          then fold (run_reaction v) (reactions pr)
                 (s\<lparr>promises := AList.update p (pr\<lparr>settled := Some v\<rparr>) (promises s)\<rparr>)
          else s)"

definition add_reaction :: "nat \<Rightarrow> reaction \<Rightarrow> resolver_state \<Rightarrow> resolver_state" where
  "add_reaction p r s =
     (case map_of (promises s) p of
        None \<Rightarrow> s
      | Some pr \<Rightarrow> s\<lparr>promises := AList.update p (pr\<lparr>reactions := reactions pr @ [r]\<rparr>) (promises s)\<rparr>)"

section \<open>Handling a permission request\<close>

text \<open>
  The callbacks held in \<^verbatim>\<open>requests\<close>. \<^verbatim>\<open>wrappedResolve\<close> tests
  \<^verbatim>\<open>response.mode && ['default', 'acceptEdits', 'bypassPermissions'].includes(response.mode)\<close>
  and puts \<^verbatim>\<open>PLAN_FAKE_RESTART\<close> at the front of the session queue.
\<close>

definition unshift :: "string \<Rightarrow> string \<Rightarrow> resolver_state \<Rightarrow> resolver_state" where
  "unshift instruction permissionMode s =
     s\<lparr>session_queue := (instruction, permissionMode) # session_queue s\<rparr>"

fun call_resolver :: "env \<Rightarrow> resolver \<Rightarrow> response \<Rightarrow> resolver_state \<Rightarrow> resolver_state" where
  "call_resolver e (Resolve p) r s = settle_promise p (Inr r) s"
| "call_resolver e (WrappedResolve p) r s =
     (if approved r then
        settle_promise p (Inr \<lparr> approved = False, reason = Some (PLAN_FAKE_REJECT e), mode = None \<rparr>)
          (case mode r of
             None \<Rightarrow> unshift (PLAN_FAKE_RESTART e) ''default'' s
           | Some m \<Rightarrow>
               if m \<noteq> [] \<and> m \<in> set [''default'', ''acceptEdits'', ''bypassPermissions'']
               then unshift (PLAN_FAKE_RESTART e) m s
               else unshift (PLAN_FAKE_RESTART e) ''default'' s)
      else settle_promise p (Inr r) s)"

text \<open>
  \<^verbatim>\<open>handlePermissionRequest(id, request)\<close>, in the order of the source: the promise and its
  callback in \<^verbatim>\<open>requests\<close>, the 4.5 minute timer, the push notification, the pending entry
  of the agent state, the reaction that clears the timer. It returns the promise.
\<close>

definition handlePermissionRequest ::
    "env \<Rightarrow> nat \<Rightarrow> string \<Rightarrow> request \<Rightarrow> resolver_state \<Rightarrow> nat \<times> resolver_state" where
  "handlePermissionRequest e now i req s =
     (let p = next_promise s;
          t = next_timer s;
          callback = (if req_name req = ''exit_plan_mode'' \<or> req_name req = ''ExitPlanMode''
                      then WrappedResolve p else Resolve p);
          s1 = s\<lparr> promises := AList.update p \<lparr> settled = None, reactions = [] \<rparr> (promises s),
                  next_promise := Suc p,
                  requests := AList.update i callback (requests s) \<rparr>;
          s2 = s1\<lparr> timers := AList.update t (DecisionTimeout i) (timers s1),
                   next_timer := Suc t \<rparr>;
          s3 = s2\<lparr> pushes := pushes s2 @
                     [\<lparr> push_title = ''Permission Request'',
                        push_body = ''Claude wants to use '' @ req_name req,
                        push_sessionId = sessionId e,
                        requestId = i,
                        push_tool = req_name req,
                        push_type = ''permission_request'' \<rparr>] \<rparr>;
          s4 = updateAgentState
                 (\<lambda>currentState. currentState\<lparr> st_requests :=
                    Some (AList.update i
                            \<lparr> tool = req_name req, arguments = req_arguments req, createdAt = now \<rparr>
                            (entries (st_requests currentState))) \<rparr>) s3
      in (p, add_reaction p (ClearTimeout t) s4))"

text \<open>
  The state update shared in shape by the decision timeout and the \<^verbatim>\<open>permission\<close> handler.
  \<^verbatim>\<open>const request = currentState.requests?.[id]; if (!request) return currentState\<close>: the
  update returns the state as it is only when the read gives \<^verbatim>\<open>undefined\<close>. Otherwise
  \<^verbatim>\<open>requests\<close> becomes a copy without the own member \<open>i\<close>, and \<^verbatim>\<open>completedRequests\<close> becomes a
  new object literal with the own member \<open>i\<close> set to
  \<^verbatim>\<open>{...request, completedAt, status, reason}\<close>. The two functions compute status and reason
  from what the spread copied.
\<close>

definition move_to_completed ::
    "string \<Rightarrow> nat \<Rightarrow> (agent_request option \<Rightarrow> string) \<Rightarrow> (agent_request option \<Rightarrow> string option) \<Rightarrow>
     agent_state \<Rightarrow> agent_state" where
  "move_to_completed i now st rs currentState =
     (let found = get_member (st_requests currentState) i in
      if found = Absent then currentState
      else currentState\<lparr>
             st_requests := Some (AList.delete i (entries (st_requests currentState))),
             completedRequests := Some (AList.update i
                \<lparr> request_members = spread_member found,
                  completedAt = now,
                  status = st (spread_member found),
                  status_reason = rs (spread_member found) \<rparr>
                (entries (completedRequests currentState))),
             completedRequests_prototype := None \<rparr>)"

text \<open>
  The handler of \<^verbatim>\<open>permission\<close> messages. \<^verbatim>\<open>request.tool === 'exit_plan_mode'\<close> is false for a
  \<^verbatim>\<open>request\<close> without a member \<^verbatim>\<open>tool\<close>.
\<close>

definition isExitPlanModeSuccess :: "env \<Rightarrow> permission_response \<Rightarrow> agent_request option \<Rightarrow> bool" where
  "isExitPlanModeSuccess e message entry \<longleftrightarrow>
     (case entry of None \<Rightarrow> False | Some r \<Rightarrow> tool r = ''exit_plan_mode'') \<and>
     \<not> msg_approved message \<and>
     msg_reason message = Some (PLAN_FAKE_REJECT e)"

definition permission_handler :: "env \<Rightarrow> nat \<Rightarrow> permission_response \<Rightarrow> resolver_state \<Rightarrow> resolver_state" where
  "permission_handler e now message s =
     (let i = msg_id message in
      case map_of (requests s) i of
        None \<Rightarrow> s
      | Some resolve \<Rightarrow>
          (let s1 = s\<lparr> responses := AList.update i message (responses s) \<rparr>;
               s2 = call_resolver e resolve
                      \<lparr> approved = msg_approved message, reason = msg_reason message,
                        mode = msg_mode message \<rparr> s1;
               s3 = s2\<lparr> requests := AList.delete i (requests s2) \<rparr>
           in updateAgentState
                (move_to_completed i now
                   (\<lambda>entry. if isExitPlanModeSuccess e message entry then ''approved''
                               else if msg_approved message then ''approved'' else ''denied'')
                   (\<lambda>entry. if isExitPlanModeSuccess e message entry then Some ''Plan approved''
                               else msg_reason message)) s3))"

section \<open>Timers\<close>

text \<open>The closure armed for 30 seconds by the server callback.\<close>

definition queue_timeout :: "request \<Rightarrow> nat \<Rightarrow> resolver_state \<Rightarrow> resolver_state" where
  "queue_timeout req q s =
     (case findIndex (\<lambda>p. req_addr (request p) = req_addr req) (pendingPermissionRequests s) of
        None \<Rightarrow> s
      | Some idx \<Rightarrow>
          settle_promise q
            (Inl (Error (''Timeout: Tool call ID never arrived for '' @ req_name req)))
            (s\<lparr> pendingPermissionRequests := splice1 idx (pendingPermissionRequests s) \<rparr>))"

text \<open>The closure armed for 4.5 minutes by \<^verbatim>\<open>handlePermissionRequest\<close>.\<close>

definition decision_timeout :: "nat \<Rightarrow> string \<Rightarrow> resolver_state \<Rightarrow> resolver_state" where
  "decision_timeout now i s =
     updateAgentState
       (move_to_completed i now (\<lambda>entry. ''canceled'') (\<lambda>entry. Some ''Timeout''))
       (s\<lparr> requests := AList.delete i (requests s) \<rparr>)"

text \<open>
  The event loop runs the closure of an armed timer once and forgets the timer; a handle
  that was cleared, or has fired, runs nothing.
\<close>

definition timer_fires :: "nat \<Rightarrow> nat \<Rightarrow> resolver_state \<Rightarrow> resolver_state" where
  "timer_fires now t s =
     (case map_of (timers s) t of
        None \<Rightarrow> s
      | Some (QueueTimeout req q) \<Rightarrow> queue_timeout req q (clearTimeout t s)
      | Some (DecisionTimeout i) \<Rightarrow> decision_timeout now i (clearTimeout t s))"

section \<open>The server callback, reset and onMessage\<close>

text \<open>
  The callback given to \<^verbatim>\<open>startPermissionServerV2\<close>. Every call receives a request object of
  its own. \<^verbatim>\<open>if (!id)\<close> holds for \<^verbatim>\<open>null\<close> and for the empty string. The result is the promise
  the caller awaits.
\<close>

definition enqueue :: "request \<Rightarrow> resolver_state \<Rightarrow> nat \<times> resolver_state" where
  "enqueue req s =
     (let q = next_promise s;
          t = next_timer s
      in (q, s\<lparr> promises := AList.update q \<lparr> settled = None, reactions = [] \<rparr> (promises s),
                 next_promise := Suc q,
                 timers := AList.update t (QueueTimeout req q) (timers s),
                 next_timer := Suc t,
                 pendingPermissionRequests := pendingPermissionRequests s @
                    [\<lparr> request = req, pending_promise = q, timeout = t \<rparr>] \<rparr>))"

definition submit :: "env \<Rightarrow> nat \<Rightarrow> string \<Rightarrow> json \<Rightarrow> resolver_state \<Rightarrow> nat \<times> resolver_state" where
  "submit e now name args s =
     (let req = \<lparr> req_addr = next_addr s, req_name = name, req_arguments = args \<rparr>;
          found = resolveToolCallId e name args (toolCalls s);
          s1 = s\<lparr> next_addr := Suc (next_addr s), toolCalls := snd found \<rparr>
      in case fst found of
           None \<Rightarrow> enqueue req s1
         | Some i \<Rightarrow> if i = [] then enqueue req s1 else handlePermissionRequest e now i req s1)"

text \<open>
  \<^verbatim>\<open>reset()\<close>. Its state update copies the own members of \<^verbatim>\<open>completedRequests\<close> into a new
  object and assigns \<^verbatim>\<open>completedRequests[id] = {...request, ...}\<close> for every own member of
  \<^verbatim>\<open>requests\<close>, in the order of \<^verbatim>\<open>Object.entries\<close>.
\<close>

definition cancel_all :: "nat \<Rightarrow> agent_state \<Rightarrow> agent_state" where
  "cancel_all now currentState =
     (let pendingRequests = entries (st_requests currentState);
          completed = fold (\<lambda>(i, entry). assign_member i
                              \<lparr> request_members = Some entry,
                                completedAt = now,
                                status = ''canceled'',
                                status_reason = Some ''Session switched to local mode'' \<rparr>)
                        pendingRequests (entries (completedRequests currentState), None)
      in currentState\<lparr> st_requests := Some [],
                        completedRequests := Some (fst completed),
                        completedRequests_prototype := snd completed \<rparr>)"

definition reset :: "nat \<Rightarrow> resolver_state \<Rightarrow> resolver_state" where
  "reset now s =
     (let s1 = s\<lparr> toolCalls := [], requests := [], responses := [] \<rparr>;
          s2 = fold (\<lambda>pending. clearTimeout (timeout pending)) (pendingPermissionRequests s1) s1;
          s3 = s2\<lparr> pendingPermissionRequests := [] \<rparr>
      in updateAgentState (cancel_all now) s3)"

text \<open>
  \<^verbatim>\<open>onMessage\<close>: a \<^verbatim>\<open>tool_use\<close> block is appended to the ledger and the queue is scanned with
  \<^verbatim>\<open>for (let i = pendingPermissionRequests.length - 1; i >= 0; i--)\<close> up to the first match
  (\<^verbatim>\<open>break\<close>); a \<^verbatim>\<open>tool_result\<close> block with a non-empty \<^verbatim>\<open>tool_use_id\<close> marks the first ledger
  entry of that id as used.
\<close>

fun scan_pending :: "env \<Rightarrow> string \<Rightarrow> json \<Rightarrow> pending_request list \<Rightarrow> nat \<Rightarrow> nat option" where
  "scan_pending e name input queue 0 = None"
| "scan_pending e name input queue (Suc i) =
     (let pending = queue ! i in
      if req_name (request pending) = name \<and> deepEqual e (req_arguments (request pending)) input
      then Some i
      else scan_pending e name input queue i)"

definition tool_use :: "env \<Rightarrow> nat \<Rightarrow> string \<Rightarrow> string \<Rightarrow> json \<Rightarrow> resolver_state \<Rightarrow> resolver_state" where
  "tool_use e now i name input s =
     (let s1 = s\<lparr> toolCalls := toolCalls s @
                    [\<lparr> tc_id = i, tc_name = name, tc_input = input, used = False \<rparr>] \<rparr>;
          queue = pendingPermissionRequests s1
      in case scan_pending e name input queue (length queue) of
           None \<Rightarrow> s1
         | Some k \<Rightarrow>
             (let pending = queue ! k;
                  s2 = clearTimeout (timeout pending) s1;
                  s3 = s2\<lparr> pendingPermissionRequests := splice1 k queue \<rparr>;
                  started = handlePermissionRequest e now i (request pending) s3
              in add_reaction (fst started) (Settle (pending_promise pending)) (snd started)))"

definition tool_result :: "string \<Rightarrow> resolver_state \<Rightarrow> resolver_state" where
  "tool_result tool_use_id s =
     (case findIndex (\<lambda>tc. tc_id tc = tool_use_id) (toolCalls s) of
        None \<Rightarrow> s
      | Some k \<Rightarrow>
          if used (toolCalls s ! k) then s
          else s\<lparr> toolCalls := (toolCalls s)[k := (toolCalls s ! k)\<lparr>used := True\<rparr>] \<rparr>)"

fun assistant_block :: "env \<Rightarrow> nat \<Rightarrow> block \<Rightarrow> resolver_state \<Rightarrow> resolver_state" where
  "assistant_block e now (ToolUse i name input) s = tool_use e now i name input s"
| "assistant_block e now other s = s"

fun user_block :: "block \<Rightarrow> resolver_state \<Rightarrow> resolver_state" where
  "user_block (ToolResult (Some tool_use_id)) s =
     (if tool_use_id = [] then s else tool_result tool_use_id s)"
| "user_block other s = s"

fun onMessage :: "env \<Rightarrow> nat \<Rightarrow> sdk_message \<Rightarrow> resolver_state \<Rightarrow> resolver_state" where
  "onMessage e now (Assistant (Some content)) s = fold (assistant_block e now) content s"
| "onMessage e now (User (Some content)) s = fold user_block content s"
| "onMessage e now other s = s"

section \<open>Runs of the resolver\<close>

text \<open>
  Everything that can happen to a resolver, each with the value of \<^verbatim>\<open>Date.now()\<close> at that
  moment: a call of the server callback, a message of the SDK stream, a \<^verbatim>\<open>permission\<close>
  message, a timer handle coming due, and \<^verbatim>\<open>reset()\<close>.
\<close>

datatype event =
    Submit string json
  | Message sdk_message
  | Permission permission_response
  | TimerFires nat
  | Reset

fun step :: "env \<Rightarrow> resolver_state \<Rightarrow> nat \<times> event \<Rightarrow> resolver_state" where
  "step e s (now, Submit name args) = snd (submit e now name args s)"
| "step e s (now, Message m) = onMessage e now m s"
| "step e s (now, Permission message) = permission_handler e now message s"
| "step e s (now, TimerFires t) = timer_fires now t s"
| "step e s (now, Reset) = reset now s"

definition run :: "env \<Rightarrow> (nat \<times> event) list \<Rightarrow> resolver_state" where
  "run e evs = foldl (step e) init evs"

section \<open>The daemon control server\<close>

text \<open>
  Of \<^verbatim>\<open>TrackedSession\<close> (declared in \<^verbatim>\<open>./api/types\<close>) the handler reads \<^verbatim>\<open>pid\<close> and
  \<^verbatim>\<open>happySessionId\<close>, which is absent until the session has registered itself.
\<close>

record tracked_session =
  pid :: nat
  happySessionId :: "string option"

datatype spawn_body =
    SpawnSuccess bool nat string
  | SpawnError string

record reply =
  code :: nat
  body :: spawn_body

text \<open>
  The handler of \<^verbatim>\<open>/spawn-session\<close> after \<^verbatim>\<open>await spawnSession(directory, sessionId)\<close>: the
  awaited promise is rejected (\<open>Inl\<close>, which the handler does not catch) or yields a session
  or \<^verbatim>\<open>null\<close>. The status code of a reply is 200 unless \<^verbatim>\<open>reply.code\<close> sets it, and
  \<^verbatim>\<open>session.happySessionId || 'pending'\<close> takes the right operand for an absent and for an
  empty identifier.
\<close>

definition spawn_session_handler :: "error + tracked_session option \<Rightarrow> error + reply" where
  "spawn_session_handler awaited =
     (case awaited of
        Inl err \<Rightarrow> Inl err
      | Inr (Some session) \<Rightarrow>
          Inr \<lparr> code = 200,
                body = SpawnSuccess True (pid session)
                         (case happySessionId session of
                            None \<Rightarrow> ''pending''
                          | Some i \<Rightarrow> if i = [] then ''pending'' else i) \<rparr>
      | Inr None \<Rightarrow> Inr \<lparr> code = 500, body = SpawnError ''Failed to spawn session'' \<rparr>)"

section \<open>The test of the queue scan\<close>

text \<open>The condition under which the scan of \<^verbatim>\<open>onMessage\<close> takes a queued request.\<close>

definition pending_matches :: "env \<Rightarrow> string \<Rightarrow> json \<Rightarrow> pending_request \<Rightarrow> bool" where
  "pending_matches e name input pending \<longleftrightarrow>
     req_name (request pending) = name \<and> deepEqual e (req_arguments (request pending)) input"

section \<open>Consistency of the resolver state\<close>

text \<open>
  What holds of the timers, the promises and the queue in every state the resolver can
  reach. Timer handles and promises are below their counters. Every queued request has
  its own 30 second timer armed, with a closure over its own request object and promise,
  and every armed 30 second timer belongs to a queued request; request objects, handles
  and promises of queued requests are pairwise different; the promise of a queued request
  is pending and carries no reaction. No reaction and no callback in \<^verbatim>\<open>requests\<close> refers to
  the timer or the promise of a queued request. Every id with a callback in \<^verbatim>\<open>requests\<close>
  is pending in the agent state.
\<close>

fun resolver_promise :: "resolver \<Rightarrow> nat" where
  "resolver_promise (Resolve p) = p"
| "resolver_promise (WrappedResolve p) = p"

fun reaction_ok :: "resolver_state \<Rightarrow> reaction \<Rightarrow> bool" where
  "reaction_ok s (ClearTimeout t) \<longleftrightarrow>
     t < next_timer s \<and> t \<notin> timeout ` set (pendingPermissionRequests s)"
| "reaction_ok s (Settle q) \<longleftrightarrow>
     q < next_promise s \<and> q \<notin> pending_promise ` set (pendingPermissionRequests s)"

definition inv_timers :: "resolver_state \<Rightarrow> bool" where
  "inv_timers s \<longleftrightarrow>
     (\<forall>t a. map_of (timers s) t = Some a \<longrightarrow> t < next_timer s) \<and>
     (\<forall>p\<in>set (pendingPermissionRequests s).
        map_of (timers s) (timeout p) = Some (QueueTimeout (request p) (pending_promise p))) \<and>
     (\<forall>t req q. map_of (timers s) t = Some (QueueTimeout req q) \<longrightarrow>
        t \<in> timeout ` set (pendingPermissionRequests s)) \<and>
     distinct (map (\<lambda>p. req_addr (request p)) (pendingPermissionRequests s)) \<and>
     distinct (map timeout (pendingPermissionRequests s)) \<and>
     (\<forall>p\<in>set (pendingPermissionRequests s). req_addr (request p) < next_addr s)"

definition inv_promises :: "resolver_state \<Rightarrow> bool" where
  "inv_promises s \<longleftrightarrow>
     (\<forall>q pr. map_of (promises s) q = Some pr \<longrightarrow>
        q < next_promise s \<and> (\<forall>r\<in>set (reactions pr). reaction_ok s r)) \<and>
     (\<forall>p\<in>set (pendingPermissionRequests s).
        map_of (promises s) (pending_promise p) = Some \<lparr> settled = None, reactions = [] \<rparr>) \<and>
     distinct (map pending_promise (pendingPermissionRequests s)) \<and>
     (\<forall>i cb. map_of (requests s) i = Some cb \<longrightarrow>
        resolver_promise cb < next_promise s \<and>
        resolver_promise cb \<notin> pending_promise ` set (pendingPermissionRequests s))"

definition inv_callbacks :: "resolver_state \<Rightarrow> bool" where
  "inv_callbacks s \<longleftrightarrow>
     (\<forall>i cb. map_of (requests s) i = Some cb \<longrightarrow>
        map_of (entries (st_requests (agentState s))) i \<noteq> None)"

definition resolver_inv :: "resolver_state \<Rightarrow> bool" where
  "resolver_inv s \<longleftrightarrow> inv_timers s \<and> inv_promises s \<and> inv_callbacks s"

text \<open>
  Taking entry \<open>k\<close> out of the queue and clearing its timer, the two steps that the match in
  \<^verbatim>\<open>onMessage\<close> and the queue timeout share.
\<close>

definition dequeue :: "nat \<Rightarrow> resolver_state \<Rightarrow> resolver_state" where
  "dequeue k s =
     (clearTimeout (timeout (pendingPermissionRequests s ! k)) s)
       \<lparr> pendingPermissionRequests := splice1 k (pendingPermissionRequests s) \<rparr>"

section \<open>Inputs of the worked examples\<close>

text \<open>
  An environment for the examples: equality of values as \<^verbatim>\<open>deepEqual\<close>, and sample strings
  for the prompt constants and the session identifier.
\<close>

definition example_env :: env where
  "example_env = \<lparr> deepEqual = (=), PLAN_FAKE_REJECT = ''REJECT'',
                    PLAN_FAKE_RESTART = ''RESTART'', sessionId = ''session'' \<rparr>"

text \<open>The arguments \<^verbatim>\<open>{command: "ls"}\<close> and two identical ledger entries, A older than B.\<close>

definition ls :: json where
  "ls = JObj [(''command'', JStr ''ls'')]"

definition call_A :: tool_call where
  "call_A = \<lparr> tc_id = ''tc_A'', tc_name = ''Bash'', tc_input = ls, used = False \<rparr>"

definition call_B :: tool_call where
  "call_B = \<lparr> tc_id = ''tc_B'', tc_name = ''Bash'', tc_input = ls, used = False \<rparr>"



text \<open>
  The resolver after the tool call \<^verbatim>\<open>tc_1\<close> and its approval request have met: one decision
  is pending, with its 4.5 minute timer armed.
\<close>

definition one_pending :: resolver_state where
  "one_pending = run example_env
     [(1, Message (Assistant (Some [ToolUse ''tc_1'' ''Bash'' ls]))),
      (2, Submit ''Bash'' ls)]"

text \<open>
  After \<^verbatim>\<open>tc_1\<close> and its request have met, a second identical request finds the entry used
  and waits in the queue: one decision is pending and one request is queued.
\<close>

definition pending_and_queued :: resolver_state where
  "pending_and_queued = run example_env
     [(1, Message (Assistant (Some [ToolUse ''tc_1'' ''Bash'' ls]))),
      (2, Submit ''Bash'' ls),
      (3, Submit ''Bash'' ls)]"

text \<open>The same run followed by \<^verbatim>\<open>reset()\<close> at time 5.\<close>

definition reset_after_pending :: resolver_state where
  "reset_after_pending = run example_env
     [(1, Message (Assistant (Some [ToolUse ''tc_1'' ''Bash'' ls]))),
      (2, Submit ''Bash'' ls),
      (5, Reset)]"

text \<open>After the reset the same tool call is recorded and requested again.\<close>

definition pending_again :: resolver_state where
  "pending_again = run example_env
     [(1, Message (Assistant (Some [ToolUse ''tc_1'' ''Bash'' ls]))),
      (2, Submit ''Bash'' ls),
      (5, Reset),
      (6, Message (Assistant (Some [ToolUse ''tc_1'' ''Bash'' ls]))),
      (7, Submit ''Bash'' ls)]"

text \<open>Two identical requests in the queue, then the tool call \<^verbatim>\<open>tc_1\<close>.\<close>

definition two_queued_then_recorded :: resolver_state where
  "two_queued_then_recorded = run example_env
     [(1, Submit ''Bash'' ls),
      (2, Submit ''Bash'' ls),
      (3, Message (Assistant (Some [ToolUse ''tc_1'' ''Bash'' ls])))]"

text \<open>
  The resolver after one request for \<^verbatim>\<open>Bash\<close> with \<^verbatim>\<open>{command: "ls"}\<close> that found no ledger
  entry, the queue entry it left, and an approval of \<^verbatim>\<open>tc_1\<close>.
\<close>

definition one_queued :: resolver_state where
  "one_queued = run example_env [(1, Submit ''Bash'' ls)]"

definition queued_ls :: pending_request where
  "queued_ls = \<lparr> request = \<lparr> req_addr = 0, req_name = ''Bash'', req_arguments = ls \<rparr>,
                 pending_promise = 0, timeout = 0 \<rparr>"

text \<open>Two identical requests that found no ledger entry, queued in this order.\<close>

definition two_queued :: resolver_state where
  "two_queued = run example_env [(1, Submit ''Bash'' ls), (2, Submit ''Bash'' ls)]"

definition approve_tc_1 :: permission_response where
  "approve_tc_1 = \<lparr> msg_id = ''tc_1'', msg_approved = True, msg_reason = None, msg_mode = None \<rparr>"

section \<open>Unfolding the operations\<close>

lemmas resolver_defs =
  submit_def resolveToolCallId_def enqueue_def tool_use_def tool_result_def
  handlePermissionRequest_def clearTimeout_def splice1_def add_reaction_def
  updateAgentState_def entries_def permission_handler_def settle_promise_def
  move_to_completed_def isExitPlanModeSuccess_def unshift_def timer_fires_def
  queue_timeout_def decision_timeout_def reset_def cancel_all_def
  get_member_def object_prototype_members_def assign_member_def

section \<open>The ledger scan\<close>

lemma resolve_from_no_match:
  "\<forall>j<n. \<not> call_matches e name args (calls ! j) \<Longrightarrow> resolve_from e name args calls n = (None, calls)"
  by (induction n) (auto simp add: call_matches_def Let_def)

lemma resolve_from_latest:
  "i < n \<Longrightarrow> call_matches e name args (calls ! i) \<Longrightarrow>
   \<forall>j. i < j \<and> j < n \<longrightarrow> \<not> call_matches e name args (calls ! j) \<Longrightarrow>
   resolve_from e name args calls n =
     (if used (calls ! i) then (None, calls)
      else (Some (tc_id (calls ! i)), calls[i := (calls ! i)\<lparr>used := True\<rparr>]))"
proof (induction n)
  case 0
  then show ?case by simp
next
  case (Suc n)
  show ?case
  proof (cases "i = n")
    case True
    with Suc.prems show ?thesis by (simp add: call_matches_def Let_def)
  next
    case False
    with Suc.prems have less: "i < n" by simp
    from Suc.prems False
    have here: "\<not> (tc_name (calls ! n) = name \<and> deepEqual e (tc_input (calls ! n)) args)"
      by (simp add: call_matches_def)
    from Suc.prems have "\<forall>j. i < j \<and> j < n \<longrightarrow> \<not> call_matches e name args (calls ! j)"
      by simp
    with Suc.IH less Suc.prems(2)
    have "resolve_from e name args calls n =
            (if used (calls ! i) then (None, calls)
             else (Some (tc_id (calls ! i)), calls[i := (calls ! i)\<lparr>used := True\<rparr>]))"
      by blast
    with here show ?thesis by (auto simp add: Let_def)
  qed
qed

text \<open>
  C2, as the code has it. The scan of \<^verbatim>\<open>resolveToolCallId\<close> goes from the most recently
  added entry to the oldest and stops at the first entry whose name equals \<open>name\<close> and whose
  input is \<^verbatim>\<open>deepEqual\<close> to \<open>args\<close>, whatever its \<^verbatim>\<open>used\<close> flag. If that entry is unused it is
  marked used and its id is returned; if it is used already, the ledger is left as it is
  and the result is \<^verbatim>\<open>null\<close>, without a look at older entries. With no matching entry at
  all the result is \<^verbatim>\<open>null\<close> as well.
\<close>

theorem resolveToolCallId_latest_match:
  "((\<forall>j<length calls. \<not> call_matches e name args (calls ! j)) \<longrightarrow>
      resolveToolCallId e name args calls = (None, calls)) \<and>
   (\<forall>i<length calls.
      call_matches e name args (calls ! i) \<and>
      (\<forall>j. i < j \<and> j < length calls \<longrightarrow> \<not> call_matches e name args (calls ! j)) \<longrightarrow>
      resolveToolCallId e name args calls =
        (if used (calls ! i) then (None, calls)
         else (Some (tc_id (calls ! i)), calls[i := (calls ! i)\<lparr>used := True\<rparr>])))"
  unfolding resolveToolCallId_def
  using resolve_from_no_match resolve_from_latest by blast

text \<open>
  Two unused identical entries recorded in the order A, B: the scan returns the id of B
  and marks B.
\<close>

theorem resolveToolCallId_latest_match_witness:
  "resolveToolCallId example_env ''Bash'' ls [call_A, call_B] =
     (Some ''tc_B'', [call_A, call_B\<lparr>used := True\<rparr>])"
proof -
  have m: "call_matches example_env ''Bash'' ls ([call_A, call_B] ! 1)"
    by (simp add: call_matches_def example_env_def call_B_def)
  have l: "\<forall>j. 1 < j \<and> j < length [call_A, call_B] \<longrightarrow>
             \<not> call_matches example_env ''Bash'' ls ([call_A, call_B] ! j)"
    by auto
  from resolveToolCallId_latest_match [of "[call_A, call_B]" example_env "''Bash''" ls] m l
  have "resolveToolCallId example_env ''Bash'' ls [call_A, call_B] =
        (if used ([call_A, call_B] ! 1) then (None, [call_A, call_B])
         else (Some (tc_id ([call_A, call_B] ! 1)),
               [call_A, call_B][1 := ([call_A, call_B] ! 1)\<lparr>used := True\<rparr>]))"
    by (metis One_nat_def length_Cons lessI list.size(3))
  then show ?thesis by (simp add: call_B_def)
qed

text \<open>
  C2, as the claim states it, fails where the most recent match is used and an older one
  is not: the older entry A is an unused structural match, and the result is \<^verbatim>\<open>null\<close>.
\<close>

theorem resolveToolCallId_skips_older_counterexample:
  "fst (resolveToolCallId example_env ''Bash'' ls [call_A, call_B\<lparr>used := True\<rparr>]) = None \<and>
   call_matches example_env ''Bash'' ls call_A \<and> \<not> used call_A"
  by (simp add: resolveToolCallId_def call_matches_def example_env_def call_A_def call_B_def)

section \<open>Matching approval requests to ledger entries\<close>

text \<open>
  C1 at a concrete run. A request for \<^verbatim>\<open>Bash\<close> with \<^verbatim>\<open>{command: "ls"}\<close> is queued, the tool
  call \<^verbatim>\<open>tc_1\<close> arrives and takes the queued request, and a second identical request
  follows. After the tool call the ledger entry is still unused. After the second request
  the ledger holds that one entry, both requests were started with its id (each sent its
  notification for \<^verbatim>\<open>tc_1\<close>), and the callback stored for \<^verbatim>\<open>tc_1\<close> is the one of the second
  request, whose promise is 2.
\<close>

theorem queued_match_reuses_record:
  "map used (toolCalls (run example_env
       [(1, Submit ''Bash'' ls),
        (2, Message (Assistant (Some [ToolUse ''tc_1'' ''Bash'' ls])))])) = [False] \<and>
   map requestId (pushes (run example_env
       [(1, Submit ''Bash'' ls),
        (2, Message (Assistant (Some [ToolUse ''tc_1'' ''Bash'' ls]))),
        (3, Submit ''Bash'' ls)])) = [''tc_1'', ''tc_1''] \<and>
   map tc_id (toolCalls (run example_env
       [(1, Submit ''Bash'' ls),
        (2, Message (Assistant (Some [ToolUse ''tc_1'' ''Bash'' ls]))),
        (3, Submit ''Bash'' ls)])) = [''tc_1''] \<and>
   requests (run example_env
       [(1, Submit ''Bash'' ls),
        (2, Message (Assistant (Some [ToolUse ''tc_1'' ''Bash'' ls]))),
        (3, Submit ''Bash'' ls)]) = [(''tc_1'', Resolve 2)]"
  by (simp add: run_def init_def example_env_def ls_def resolver_defs Let_def)

section \<open>The plan-exit tool\<close>

text \<open>
  C7 at its own example. The ledger has \<^verbatim>\<open>tc_1\<close> for \<^verbatim>\<open>exit_plan_mode\<close>, the request is
  submitted and the decision \<^verbatim>\<open>{approved: true, mode: "acceptEdits"}\<close> arrives. The completed
  entry has status \<^verbatim>\<open>approved\<close> and the reason of the message, which is absent.
\<close>

theorem plan_approval_recorded_without_reason:
  "completedRequests (agentState (run example_env
      [(1, Message (Assistant (Some [ToolUse ''tc_1'' ''exit_plan_mode'' (JObj [])]))),
       (2, Submit ''exit_plan_mode'' (JObj [])),
       (3, Permission \<lparr> msg_id = ''tc_1'', msg_approved = True, msg_reason = None,
                         msg_mode = Some ''acceptEdits'' \<rparr>)])) =
   Some [(''tc_1'',
          \<lparr> request_members =
              Some \<lparr> tool = ''exit_plan_mode'', arguments = JObj [], createdAt = 2 \<rparr>,
            completedAt = 3, status = ''approved'', status_reason = None \<rparr>)]"
  by (simp add: run_def init_def example_env_def resolver_defs Let_def)

section \<open>Spawning a session through the control server\<close>

text \<open>
  C10. A spawned session without \<^verbatim>\<open>happySessionId\<close> is answered with \<^verbatim>\<open>success: true\<close>, its
  pid and the string \<^verbatim>\<open>pending\<close> as session id; when the callback yields \<^verbatim>\<open>null\<close> the
  handler returns a reply with status code 500 and an error body.
\<close>

theorem spawn_session_handler_replies:
  "spawn_session_handler (Inr (Some \<lparr> pid = p, happySessionId = None \<rparr>)) =
     Inr \<lparr> code = 200, body = SpawnSuccess True p ''pending'' \<rparr> \<and>
   spawn_session_handler (Inr None) =
     Inr \<lparr> code = 500, body = SpawnError ''Failed to spawn session'' \<rparr>"
  by (simp add: spawn_session_handler_def)

section \<open>Decisions on the plan-exit tool\<close>




section \<open>The decision timeout and stale decisions\<close>

lemma get_member_own:
  "map_of (entries obj) i = Some v \<Longrightarrow> get_member obj i = Own v"
  by (cases obj) (simp_all add: get_member_def entries_def)


lemma move_to_completed_absent:
  "get_member (st_requests a) i = Absent \<Longrightarrow> move_to_completed i now st rs a = a"
  by (simp add: move_to_completed_def)

lemma timer_fires_unarmed:
  "map_of (timers s) t = None \<Longrightarrow> timer_fires now t s = s"
  by (simp add: timer_fires_def)





section \<open>Reset\<close>

lemma fold_clearTimeout:
  "fold (\<lambda>pending. clearTimeout (timeout pending)) queue s =
     s\<lparr>timers := fold (\<lambda>pending. AList.delete (timeout pending)) queue (timers s)\<rparr>"
  by (induction queue arbitrary: s) (simp_all add: clearTimeout_def)

lemma map_of_fold_delete:
  "map_of (fold (\<lambda>pending. AList.delete (timeout pending)) queue ts) t =
     (if t \<in> timeout ` set queue then None else map_of ts t)"
  by (induction queue arbitrary: ts) (auto simp add: delete_conv')

lemma reset_eq:
  "reset now s =
     s\<lparr> toolCalls := [], requests := [], responses := [],
        timers := fold (\<lambda>pending. AList.delete (timeout pending))
                    (pendingPermissionRequests s) (timers s),
        pendingPermissionRequests := [],
        agentState := cancel_all now (agentState s) \<rparr>"
  by (simp add: reset_def Let_def fold_clearTimeout updateAgentState_def)

text \<open>The loop of assignments, read at a key other than \<^verbatim>\<open>__proto__\<close>.\<close>

lemma cancel_all_fold:
  "distinct (map fst kvs) \<Longrightarrow> i \<noteq> ''__proto__'' \<Longrightarrow>
   map_of (fst (fold (\<lambda>(k, entry). assign_member k (f entry)) kvs acc)) i =
     (case map_of kvs i of None \<Rightarrow> map_of (fst acc) i | Some entry \<Rightarrow> Some (f entry))"
proof (induction kvs arbitrary: acc)
  case Nil
  then show ?case by simp
next
  case (Cons kv kvs)
  obtain k v where kv: "kv = (k, v)" by (cases kv)
  from Cons.prems kv have notin: "k \<notin> fst ` set kvs" and d: "distinct (map fst kvs)" by auto
  from notin have none: "map_of kvs k = None" by (simp add: map_of_eq_None_iff)
  have step: "map_of (fst (assign_member k (f v) acc)) i =
                (if i = k then Some (f v) else map_of (fst acc) i)"
    using Cons.prems(2) by (auto simp add: assign_member_def update_conv')
  from Cons.IH [OF d Cons.prems(2), of "assign_member k (f v) acc"] step none
  show ?case by (auto simp add: kv split: option.splits)
qed

text \<open>Without the key \<^verbatim>\<open>__proto__\<close> the loop leaves the prototype alone.\<close>

lemma cancel_all_prototype:
  "''__proto__'' \<notin> fst ` set kvs \<Longrightarrow>
   snd (fold (\<lambda>(k, entry). assign_member k (f entry)) kvs acc) = snd acc"
  by (induction kvs arbitrary: acc) (auto simp add: assign_member_def)

lemma cancel_all_idem:
  assumes "map_of (entries (st_requests a)) ''__proto__'' = None"
  shows "cancel_all now' (cancel_all now a) = cancel_all now a"
proof -
  define canceled where
    "canceled = fold (\<lambda>(i, entry). assign_member i
                        \<lparr> request_members = Some entry, completedAt = now,
                          status = ''canceled'',
                          status_reason = Some ''Session switched to local mode'' \<rparr>)
                  (entries (st_requests a)) (entries (completedRequests a), None)"
  from assms have "''__proto__'' \<notin> fst ` set (entries (st_requests a))"
    by (simp add: map_of_eq_None_iff)
  then have "snd canceled = snd (entries (completedRequests a), None :: completed_request option)"
    unfolding canceled_def by (rule cancel_all_prototype)
  then have proto: "snd canceled = None" by simp
  have first: "cancel_all now a =
      a\<lparr> st_requests := Some [], completedRequests := Some (fst canceled),
         completedRequests_prototype := None \<rparr>"
    unfolding cancel_all_def Let_def canceled_def [symmetric] by (simp add: proto)
  show ?thesis
    unfolding first by (simp add: cancel_all_def entries_def)
qed

lemma reset_idem:
  "map_of (entries (st_requests (agentState s))) ''__proto__'' = None \<Longrightarrow>
   reset now' (reset now s) = reset now s"
  by (simp add: reset_eq cancel_all_idem)

lemma findIndex_none: "\<forall>x\<in>set xs. \<not> P x \<Longrightarrow> findIndex P xs = None"
  by (induction xs) simp_all

section \<open>Lists and the queue\<close>

lemma set_splice1_subset: "set (splice1 k xs) \<subseteq> set xs"
  by (auto simp add: splice1_def dest: in_set_takeD in_set_dropD)

lemma map_splice1: "map f (splice1 k xs) = splice1 k (map f xs)"
  by (simp add: splice1_def take_map drop_map)

lemma distinct_splice1: "distinct xs \<Longrightarrow> distinct (splice1 k xs)"
  by (simp add: splice1_def set_take_disj_set_drop_if_distinct)

lemma nth_notin_splice1:
  assumes "distinct xs" and "k < length xs"
  shows "xs ! k \<notin> set (splice1 k xs)"
proof -
  from assms(2) have "xs = take k xs @ xs ! k # drop (Suc k) xs"
    by (simp add: id_take_nth_drop)
  with assms(1) have "distinct (take k xs @ xs ! k # drop (Suc k) xs)" by simp
  then show ?thesis by (auto simp add: splice1_def)
qed

lemma set_splice1_insert:
  assumes "k < length xs"
  shows "set xs = insert (xs ! k) (set (splice1 k xs))"
proof -
  from assms have "xs = take k xs @ xs ! k # drop (Suc k) xs"
    by (simp add: id_take_nth_drop)
  then have "set xs = set (take k xs @ xs ! k # drop (Suc k) xs)" by simp
  then show ?thesis by (simp add: splice1_def)
qed

lemma findIndex_some:
  "findIndex P xs = Some k \<Longrightarrow> k < length xs \<and> P (xs ! k)"
  by (induction xs arbitrary: k) (auto split: if_splits option.splits)

lemma findIndex_distinct:
  "distinct (map f xs) \<Longrightarrow> k < length xs \<Longrightarrow> findIndex (\<lambda>x. f x = f (xs ! k)) xs = Some k"
proof (induction xs arbitrary: k)
  case Nil
  then show ?case by simp
next
  case (Cons x xs)
  show ?case
  proof (cases k)
    case 0
    then show ?thesis by simp
  next
    case (Suc j)
    with Cons.prems have j: "j < length xs" and d: "distinct (map f xs)"
      and "f x \<notin> f ` set xs" by auto
    with Suc have "f x \<noteq> f ((x # xs) ! k)" by (metis image_eqI nth_Cons_Suc nth_mem)
    with Cons.IH [OF d j] Suc show ?thesis by simp
  qed
qed

section \<open>The consistency conditions hold in every run\<close>

lemma handlePermissionRequest_eq:
  "handlePermissionRequest e now i req s =
     (next_promise s,
      s\<lparr> promises := AList.update (next_promise s)
                       \<lparr> settled = None, reactions = [ClearTimeout (next_timer s)] \<rparr> (promises s),
         next_promise := Suc (next_promise s),
         requests := AList.update i
                       (if req_name req = ''exit_plan_mode'' \<or> req_name req = ''ExitPlanMode''
                        then WrappedResolve (next_promise s) else Resolve (next_promise s))
                       (requests s),
         timers := AList.update (next_timer s) (DecisionTimeout i) (timers s),
         next_timer := Suc (next_timer s),
         pushes := pushes s @
                     [\<lparr> push_title = ''Permission Request'',
                        push_body = ''Claude wants to use '' @ req_name req,
                        push_sessionId = sessionId e,
                        requestId = i,
                        push_tool = req_name req,
                        push_type = ''permission_request'' \<rparr>],
         agentState := (agentState s)\<lparr> st_requests :=
                    Some (AList.update i
                            \<lparr> tool = req_name req, arguments = req_arguments req, createdAt = now \<rparr>
                            (entries (st_requests (agentState s)))) \<rparr> \<rparr>)"
  by (simp add: handlePermissionRequest_def Let_def add_reaction_def updateAgentState_def
      update_conv')

lemma queue_timer_bound:
  "inv_timers s \<Longrightarrow> p \<in> set (pendingPermissionRequests s) \<Longrightarrow> timeout p < next_timer s"
  unfolding inv_timers_def by blast

lemma queue_promise_bound:
  "inv_promises s \<Longrightarrow> p \<in> set (pendingPermissionRequests s) \<Longrightarrow>
   pending_promise p < next_promise s"
  unfolding inv_promises_def by blast

lemma next_timer_fresh:
  assumes "inv_timers s"
  shows "next_timer s \<notin> timeout ` set (pendingPermissionRequests s)"
proof
  assume "next_timer s \<in> timeout ` set (pendingPermissionRequests s)"
  then obtain p where "p \<in> set (pendingPermissionRequests s)" and "next_timer s = timeout p"
    by (rule imageE)
  with queue_timer_bound [OF assms, of p] show False by simp
qed

lemma next_promise_fresh:
  assumes "inv_promises s"
  shows "next_promise s \<notin> pending_promise ` set (pendingPermissionRequests s)"
proof
  assume "next_promise s \<in> pending_promise ` set (pendingPermissionRequests s)"
  then obtain p where "p \<in> set (pendingPermissionRequests s)"
    and "next_promise s = pending_promise p"
    by (rule imageE)
  with queue_promise_bound [OF assms, of p] show False by simp
qed

lemma inv_timers_handle:
  assumes "inv_timers s"
  shows "inv_timers (snd (handlePermissionRequest e now i req s))"
  using assms next_timer_fresh [OF assms]
  unfolding inv_timers_def handlePermissionRequest_eq
  by (auto simp add: update_conv' split: if_splits)

lemma inv_promises_handle:
  assumes "inv_timers s" and "inv_promises s"
  shows "inv_promises (snd (handlePermissionRequest e now i req s))"
proof -
  note fresh_t = next_timer_fresh [OF assms(1)]
  note fresh_p = next_promise_fresh [OF assms(2)]
  have ok: "reaction_ok s r \<Longrightarrow>
            reaction_ok (snd (handlePermissionRequest e now i req s)) r" for r
    by (cases r) (auto simp add: handlePermissionRequest_eq)
  from fresh_t have new: "reaction_ok (snd (handlePermissionRequest e now i req s))
                    (ClearTimeout (next_timer s))"
    by (simp add: handlePermissionRequest_eq)
  have a: "q < next_promise (snd (handlePermissionRequest e now i req s)) \<and>
           (\<forall>r\<in>set (reactions pr). reaction_ok (snd (handlePermissionRequest e now i req s)) r)"
    if "map_of (promises (snd (handlePermissionRequest e now i req s))) q = Some pr" for q pr
  proof (cases "q = next_promise s")
    case True
    with that new show ?thesis by (auto simp add: handlePermissionRequest_eq update_conv')
  next
    case False
    with that have "map_of (promises s) q = Some pr"
      by (simp add: handlePermissionRequest_eq update_conv')
    with assms(2) have "q < next_promise s" and "\<forall>r\<in>set (reactions pr). reaction_ok s r"
      unfolding inv_promises_def by blast+
    with ok show ?thesis by (auto simp add: handlePermissionRequest_eq)
  qed
  have b: "map_of (promises (snd (handlePermissionRequest e now i req s))) (pending_promise p) =
          Some \<lparr> settled = None, reactions = [] \<rparr>"
    if "p \<in> set (pendingPermissionRequests (snd (handlePermissionRequest e now i req s)))" for p
  proof -
    from that have p: "p \<in> set (pendingPermissionRequests s)"
      by (simp add: handlePermissionRequest_eq)
    with assms(2) have "map_of (promises s) (pending_promise p) =
          Some \<lparr> settled = None, reactions = [] \<rparr>"
      unfolding inv_promises_def by blast
    moreover from p fresh_p have "pending_promise p \<noteq> next_promise s"
      by (metis imageI)
    ultimately show ?thesis by (simp add: handlePermissionRequest_eq update_conv')
  qed
  have c: "distinct (map pending_promise
             (pendingPermissionRequests (snd (handlePermissionRequest e now i req s))))"
    using assms(2) unfolding inv_promises_def by (simp add: handlePermissionRequest_eq)
  have d: "resolver_promise cb < next_promise (snd (handlePermissionRequest e now i req s)) \<and>
        resolver_promise cb \<notin> pending_promise `
          set (pendingPermissionRequests (snd (handlePermissionRequest e now i req s)))"
    if "map_of (requests (snd (handlePermissionRequest e now i req s))) j = Some cb" for j cb
  proof (cases "j = i")
    case True
    with that have "resolver_promise cb = next_promise s"
      by (auto simp add: handlePermissionRequest_eq update_conv' split: if_splits)
    with fresh_p show ?thesis by (simp add: handlePermissionRequest_eq)
  next
    case False
    with that have "map_of (requests s) j = Some cb"
      by (simp add: handlePermissionRequest_eq update_conv')
    with assms(2) have "resolver_promise cb < next_promise s"
      and "resolver_promise cb \<notin> pending_promise ` set (pendingPermissionRequests s)"
      unfolding inv_promises_def by blast+
    then show ?thesis by (simp add: handlePermissionRequest_eq)
  qed
  from a b c d show ?thesis unfolding inv_promises_def by blast
qed

lemma inv_callbacks_handle:
  assumes "inv_callbacks s"
  shows "inv_callbacks (snd (handlePermissionRequest e now i req s))"
  using assms unfolding inv_callbacks_def handlePermissionRequest_eq
  by (auto simp add: update_conv' entries_def split: if_splits)

lemma inv_handle:
  "resolver_inv s \<Longrightarrow> resolver_inv (snd (handlePermissionRequest e now i req s))"
  unfolding resolver_inv_def
  by (simp add: inv_timers_handle inv_promises_handle inv_callbacks_handle)

lemma enqueue_eq:
  "snd (enqueue req s) =
     s\<lparr> promises := AList.update (next_promise s) \<lparr> settled = None, reactions = [] \<rparr> (promises s),
        next_promise := Suc (next_promise s),
        timers := AList.update (next_timer s) (QueueTimeout req (next_promise s)) (timers s),
        next_timer := Suc (next_timer s),
        pendingPermissionRequests := pendingPermissionRequests s @
           [\<lparr> request = req, pending_promise = next_promise s, timeout = next_timer s \<rparr>] \<rparr>"
  by (simp add: enqueue_def Let_def)

lemma inv_timers_enqueue:
  assumes "inv_timers s"
    and "req_addr req < next_addr s"
    and "req_addr req \<notin> (\<lambda>p. req_addr (request p)) ` set (pendingPermissionRequests s)"
  shows "inv_timers (snd (enqueue req s))"
  using assms next_timer_fresh [OF assms(1)]
  unfolding inv_timers_def enqueue_eq
  by (auto simp add: update_conv' split: if_splits)

lemma inv_promises_enqueue:
  assumes "inv_timers s" and "inv_promises s"
  shows "inv_promises (snd (enqueue req s))"
proof -
  note fresh_t = next_timer_fresh [OF assms(1)]
  note fresh_p = next_promise_fresh [OF assms(2)]
  have ok: "reaction_ok (snd (enqueue req s)) r" if "reaction_ok s r" for r
    using that by (cases r) (auto simp add: enqueue_eq)
  have a: "q < next_promise (snd (enqueue req s)) \<and>
           (\<forall>r\<in>set (reactions pr). reaction_ok (snd (enqueue req s)) r)"
    if "map_of (promises (snd (enqueue req s))) q = Some pr" for q pr
  proof (cases "q = next_promise s")
    case True
    with that show ?thesis by (auto simp add: enqueue_eq update_conv')
  next
    case False
    with that have "map_of (promises s) q = Some pr"
      by (simp add: enqueue_eq update_conv')
    with assms(2) have "q < next_promise s" and "\<forall>r\<in>set (reactions pr). reaction_ok s r"
      unfolding inv_promises_def by blast+
    with ok show ?thesis by (auto simp add: enqueue_eq)
  qed
  have b: "map_of (promises (snd (enqueue req s))) (pending_promise p) =
          Some \<lparr> settled = None, reactions = [] \<rparr>"
    if "p \<in> set (pendingPermissionRequests (snd (enqueue req s)))" for p
  proof (cases "p \<in> set (pendingPermissionRequests s)")
    case True
    with assms(2) have "map_of (promises s) (pending_promise p) =
          Some \<lparr> settled = None, reactions = [] \<rparr>"
      unfolding inv_promises_def by blast
    moreover from True fresh_p have "pending_promise p \<noteq> next_promise s"
      by (metis imageI)
    ultimately show ?thesis by (simp add: enqueue_eq update_conv')
  next
    case False
    with that have "pending_promise p = next_promise s" by (auto simp add: enqueue_eq)
    then show ?thesis by (simp add: enqueue_eq update_conv')
  qed
  have c: "distinct (map pending_promise (pendingPermissionRequests (snd (enqueue req s))))"
    using assms(2) fresh_p unfolding inv_promises_def by (simp add: enqueue_eq)
  have d: "resolver_promise cb < next_promise (snd (enqueue req s)) \<and>
        resolver_promise cb \<notin> pending_promise `
          set (pendingPermissionRequests (snd (enqueue req s)))"
    if "map_of (requests (snd (enqueue req s))) j = Some cb" for j cb
  proof -
    from that have "map_of (requests s) j = Some cb" by (simp add: enqueue_eq)
    with assms(2) have "resolver_promise cb < next_promise s"
      and "resolver_promise cb \<notin> pending_promise ` set (pendingPermissionRequests s)"
      unfolding inv_promises_def by blast+
    then show ?thesis by (auto simp add: enqueue_eq)
  qed
  from a b c d show ?thesis unfolding inv_promises_def by blast
qed

lemma inv_callbacks_enqueue:
  "inv_callbacks s \<Longrightarrow> inv_callbacks (snd (enqueue req s))"
  unfolding inv_callbacks_def enqueue_eq by simp

lemma inv_enqueue:
  assumes "resolver_inv s"
    and "req_addr req < next_addr s"
    and "req_addr req \<notin> (\<lambda>p. req_addr (request p)) ` set (pendingPermissionRequests s)"
  shows "resolver_inv (snd (enqueue req s))"
  using assms unfolding resolver_inv_def
  by (simp add: inv_timers_enqueue inv_promises_enqueue inv_callbacks_enqueue)

lemma dequeue_fields:
  "timers (dequeue k s) = AList.delete (timeout (pendingPermissionRequests s ! k)) (timers s)"
  "pendingPermissionRequests (dequeue k s) = splice1 k (pendingPermissionRequests s)"
  "promises (dequeue k s) = promises s"
  "requests (dequeue k s) = requests s"
  "agentState (dequeue k s) = agentState s"
  "next_timer (dequeue k s) = next_timer s"
  "next_promise (dequeue k s) = next_promise s"
  "next_addr (dequeue k s) = next_addr s"
  by (simp_all add: dequeue_def clearTimeout_def)

lemma in_dequeued:
  "p \<in> set (pendingPermissionRequests (dequeue k s)) \<Longrightarrow> p \<in> set (pendingPermissionRequests s)"
  using set_splice1_subset [of k "pendingPermissionRequests s"] by (auto simp add: dequeue_fields)

lemma dequeued_timer_gone:
  assumes "inv_timers s" and "k < length (pendingPermissionRequests s)"
  shows "timeout (pendingPermissionRequests s ! k) \<notin>
           timeout ` set (pendingPermissionRequests (dequeue k s))"
proof -
  from assms(1) have "distinct (map timeout (pendingPermissionRequests s))"
    unfolding inv_timers_def by blast
  from nth_notin_splice1 [OF this] assms(2)
  have "map timeout (pendingPermissionRequests s) ! k \<notin>
          set (splice1 k (map timeout (pendingPermissionRequests s)))"
    by simp
  with assms(2) show ?thesis by (simp add: dequeue_fields map_splice1 [symmetric])
qed

lemma dequeued_promise_gone:
  assumes "inv_promises s" and "k < length (pendingPermissionRequests s)"
  shows "pending_promise (pendingPermissionRequests s ! k) \<notin>
           pending_promise ` set (pendingPermissionRequests (dequeue k s))"
proof -
  from assms(1) have "distinct (map pending_promise (pendingPermissionRequests s))"
    unfolding inv_promises_def by blast
  from nth_notin_splice1 [OF this] assms(2)
  have "map pending_promise (pendingPermissionRequests s) ! k \<notin>
          set (splice1 k (map pending_promise (pendingPermissionRequests s)))"
    by simp
  with assms(2) show ?thesis by (simp add: dequeue_fields map_splice1 [symmetric])
qed

lemma inv_timers_dequeue:
  assumes "inv_timers s" and k: "k < length (pendingPermissionRequests s)"
  shows "inv_timers (dequeue k s)"
proof -
  let ?t = "timeout (pendingPermissionRequests s ! k)"
  note gone = dequeued_timer_gone [OF assms]
  have a: "t < next_timer (dequeue k s)" if "map_of (timers (dequeue k s)) t = Some a" for t a
  proof -
    from that have "map_of (timers s) t = Some a"
      by (simp add: dequeue_fields delete_conv' split: if_splits)
    with assms(1) show ?thesis unfolding inv_timers_def by (auto simp add: dequeue_fields)
  qed
  have b: "map_of (timers (dequeue k s)) (timeout p) =
             Some (QueueTimeout (request p) (pending_promise p))"
    if "p \<in> set (pendingPermissionRequests (dequeue k s))" for p
  proof -
    from that gone have "timeout p \<noteq> ?t" by (metis imageI)
    moreover from in_dequeued [OF that] assms(1)
    have "map_of (timers s) (timeout p) = Some (QueueTimeout (request p) (pending_promise p))"
      unfolding inv_timers_def by blast
    ultimately show ?thesis by (simp add: dequeue_fields delete_conv')
  qed
  have c: "t \<in> timeout ` set (pendingPermissionRequests (dequeue k s))"
    if "map_of (timers (dequeue k s)) t = Some (QueueTimeout req q)" for t req q
  proof -
    from that have ne: "t \<noteq> ?t" and "map_of (timers s) t = Some (QueueTimeout req q)"
      by (simp_all add: dequeue_fields delete_conv' split: if_splits)
    with assms(1) have "t \<in> timeout ` set (pendingPermissionRequests s)"
      unfolding inv_timers_def by blast
    then have "t \<in> timeout ` insert (pendingPermissionRequests s ! k)
                     (set (splice1 k (pendingPermissionRequests s)))"
      using set_splice1_insert [OF k] by simp
    with ne show ?thesis by (auto simp add: dequeue_fields)
  qed
  from assms(1) have d: "distinct (map (\<lambda>p. req_addr (request p))
                           (pendingPermissionRequests (dequeue k s)))"
    unfolding inv_timers_def
    by (simp add: dequeue_fields map_splice1 distinct_splice1)
  from assms(1) have e: "distinct (map timeout (pendingPermissionRequests (dequeue k s)))"
    unfolding inv_timers_def
    by (simp add: dequeue_fields map_splice1 distinct_splice1)
  have f: "req_addr (request p) < next_addr (dequeue k s)"
    if "p \<in> set (pendingPermissionRequests (dequeue k s))" for p
    using in_dequeued [OF that] assms(1) unfolding inv_timers_def
    by (auto simp add: dequeue_fields)
  from a b c d e f show ?thesis unfolding inv_timers_def by blast
qed

lemma reaction_ok_dequeue: "reaction_ok s r \<Longrightarrow> reaction_ok (dequeue k s) r"
  by (cases r) (auto simp add: dequeue_fields(6,7) dest: in_dequeued)

lemma inv_promises_dequeue:
  assumes "inv_promises s"
  shows "inv_promises (dequeue k s)"
proof -
  have a: "q < next_promise (dequeue k s) \<and>
           (\<forall>r\<in>set (reactions pr). reaction_ok (dequeue k s) r)"
    if "map_of (promises (dequeue k s)) q = Some pr" for q pr
  proof -
    from that have "map_of (promises s) q = Some pr" by (simp add: dequeue_fields)
    with assms have "q < next_promise s" and "\<forall>r\<in>set (reactions pr). reaction_ok s r"
      unfolding inv_promises_def by blast+
    then show ?thesis by (auto simp add: dequeue_fields intro: reaction_ok_dequeue)
  qed
  have b: "map_of (promises (dequeue k s)) (pending_promise p) =
          Some \<lparr> settled = None, reactions = [] \<rparr>"
    if "p \<in> set (pendingPermissionRequests (dequeue k s))" for p
    using in_dequeued [OF that] assms unfolding inv_promises_def
    by (auto simp add: dequeue_fields)
  from assms have c: "distinct (map pending_promise (pendingPermissionRequests (dequeue k s)))"
    unfolding inv_promises_def
    by (simp add: dequeue_fields map_splice1 distinct_splice1)
  have d: "resolver_promise cb < next_promise (dequeue k s) \<and>
        resolver_promise cb \<notin> pending_promise ` set (pendingPermissionRequests (dequeue k s))"
    if "map_of (requests (dequeue k s)) j = Some cb" for j cb
  proof -
    from that have "map_of (requests s) j = Some cb" by (simp add: dequeue_fields)
    with assms have "resolver_promise cb < next_promise s"
      and "resolver_promise cb \<notin> pending_promise ` set (pendingPermissionRequests s)"
      unfolding inv_promises_def by blast+
    moreover have "pending_promise ` set (pendingPermissionRequests (dequeue k s)) \<subseteq>
                     pending_promise ` set (pendingPermissionRequests s)"
      by (auto dest: in_dequeued)
    ultimately show ?thesis by (auto simp add: dequeue_fields(7))
  qed
  from a b c d show ?thesis unfolding inv_promises_def by blast
qed

lemma inv_dequeue:
  assumes "resolver_inv s" and "k < length (pendingPermissionRequests s)"
  shows "resolver_inv (dequeue k s)"
  using assms unfolding resolver_inv_def
  by (simp add: inv_timers_dequeue inv_promises_dequeue inv_callbacks_def dequeue_fields)

lemma reaction_ok_cong:
  assumes "pendingPermissionRequests s' = pendingPermissionRequests s"
    and "next_timer s' = next_timer s" and "next_promise s' = next_promise s"
  shows "reaction_ok s' r = reaction_ok s r"
  using assms by (cases r) simp_all

lemma inv_frame:
  assumes "timers s' = timers s"
    and "pendingPermissionRequests s' = pendingPermissionRequests s"
    and "promises s' = promises s"
    and "requests s' = requests s"
    and "st_requests (agentState s') = st_requests (agentState s)"
    and "next_timer s' = next_timer s"
    and "next_promise s' = next_promise s"
    and "next_addr s' = next_addr s"
  shows "resolver_inv s' = resolver_inv s"
proof -
  have "reaction_ok s' = reaction_ok s"
    by (rule ext, rule reaction_ok_cong) (simp_all add: assms)
  with assms show ?thesis
    unfolding resolver_inv_def inv_timers_def inv_promises_def inv_callbacks_def
    by simp
qed

lemma run_reaction_fields:
  "pendingPermissionRequests (run_reaction v r s) = pendingPermissionRequests s"
  "requests (run_reaction v r s) = requests s"
  "agentState (run_reaction v r s) = agentState s"
  "next_timer (run_reaction v r s) = next_timer s"
  "next_promise (run_reaction v r s) = next_promise s"
  "next_addr (run_reaction v r s) = next_addr s"
  by (cases r; simp add: clearTimeout_def split: option.splits)+

lemma reaction_ok_run_reaction:
  "reaction_ok (run_reaction v r s) r' = reaction_ok s r'"
  by (rule reaction_ok_cong) (simp_all add: run_reaction_fields)

lemma inv_clearTimeout:
  assumes "resolver_inv s" and "t \<notin> timeout ` set (pendingPermissionRequests s)"
  shows "resolver_inv (clearTimeout t s)"
proof -
  from assms(1) have it: "inv_timers s" and ip: "inv_promises s" and ic: "inv_callbacks s"
    unfolding resolver_inv_def by simp_all
  have a: "t' < next_timer s" if "map_of (AList.delete t (timers s)) t' = Some a" for t' a
  proof -
    from that have "map_of (timers s) t' = Some a"
      by (simp add: delete_conv' split: if_splits)
    with it show ?thesis unfolding inv_timers_def by blast
  qed
  have b: "map_of (AList.delete t (timers s)) (timeout p) =
             Some (QueueTimeout (request p) (pending_promise p))"
    if "p \<in> set (pendingPermissionRequests s)" for p
  proof -
    from that assms(2) have "timeout p \<noteq> t" by (metis imageI)
    moreover from that it
    have "map_of (timers s) (timeout p) = Some (QueueTimeout (request p) (pending_promise p))"
      unfolding inv_timers_def by blast
    ultimately show ?thesis by (simp add: delete_conv')
  qed
  have c: "t' \<in> timeout ` set (pendingPermissionRequests s)"
    if "map_of (AList.delete t (timers s)) t' = Some (QueueTimeout req q)" for t' req q
  proof -
    from that have "map_of (timers s) t' = Some (QueueTimeout req q)"
      by (simp add: delete_conv' split: if_splits)
    with it show ?thesis unfolding inv_timers_def by blast
  qed
  from it have d: "distinct (map (\<lambda>p. req_addr (request p)) (pendingPermissionRequests s))"
    and e: "distinct (map timeout (pendingPermissionRequests s))"
    and f: "\<forall>p\<in>set (pendingPermissionRequests s). req_addr (request p) < next_addr s"
    unfolding inv_timers_def by blast+
  from a b c d e f have "inv_timers (clearTimeout t s)"
    unfolding inv_timers_def by (simp add: clearTimeout_def)
  moreover have "reaction_ok (clearTimeout t s) = reaction_ok s"
    by (rule ext, rule reaction_ok_cong) (simp_all add: clearTimeout_def)
  with ip have "inv_promises (clearTimeout t s)"
    unfolding inv_promises_def by (simp add: clearTimeout_def)
  moreover from ic have "inv_callbacks (clearTimeout t s)"
    unfolding inv_callbacks_def by (simp add: clearTimeout_def)
  ultimately show ?thesis unfolding resolver_inv_def by simp
qed

text \<open>Changing one promise of the store that belongs to no queued request.\<close>

lemma inv_promise_update:
  assumes "resolver_inv s"
    and "map_of (promises s) q = Some pr"
    and "q \<notin> pending_promise ` set (pendingPermissionRequests s)"
    and "\<forall>r\<in>set (reactions pr'). reaction_ok s r"
  shows "resolver_inv (s\<lparr> promises := AList.update q pr' (promises s) \<rparr>)"
proof -
  let ?s = "s\<lparr> promises := AList.update q pr' (promises s) \<rparr>"
  from assms(1) have it: "inv_timers s" and ip: "inv_promises s" and ic: "inv_callbacks s"
    unfolding resolver_inv_def by simp_all
  have ok: "reaction_ok ?s = reaction_ok s"
    by (rule ext, rule reaction_ok_cong) simp_all
  from ip assms(2) have qb: "q < next_promise s" unfolding inv_promises_def by blast
  have a: "q' < next_promise s \<and> (\<forall>r\<in>set (reactions x). reaction_ok s r)"
    if "map_of (AList.update q pr' (promises s)) q' = Some x" for q' x
  proof (cases "q' = q")
    case True
    with that have "x = pr'" by (simp add: update_conv')
    with True qb assms(4) show ?thesis by simp
  next
    case False
    with that have "map_of (promises s) q' = Some x" by (simp add: update_conv')
    with ip show ?thesis unfolding inv_promises_def by blast
  qed
  have b: "map_of (AList.update q pr' (promises s)) (pending_promise p) =
             Some \<lparr> settled = None, reactions = [] \<rparr>"
    if "p \<in> set (pendingPermissionRequests s)" for p
  proof -
    from that assms(3) have "pending_promise p \<noteq> q" by (metis imageI)
    moreover from that ip have "map_of (promises s) (pending_promise p) =
             Some \<lparr> settled = None, reactions = [] \<rparr>"
      unfolding inv_promises_def by blast
    ultimately show ?thesis by (simp add: update_conv')
  qed
  from ip have c: "distinct (map pending_promise (pendingPermissionRequests s))"
    and d: "\<forall>i cb. map_of (requests s) i = Some cb \<longrightarrow>
        resolver_promise cb < next_promise s \<and>
        resolver_promise cb \<notin> pending_promise ` set (pendingPermissionRequests s)"
    unfolding inv_promises_def by blast+
  from a b c d have "inv_promises ?s" unfolding inv_promises_def by (simp add: ok)
  moreover from it have "inv_timers ?s" unfolding inv_timers_def by simp
  moreover from ic have "inv_callbacks ?s" unfolding inv_callbacks_def by simp
  ultimately show ?thesis unfolding resolver_inv_def by simp
qed

lemma promise_reactions_ok:
  "resolver_inv s \<Longrightarrow> map_of (promises s) q = Some pr \<Longrightarrow>
   \<forall>r\<in>set (reactions pr). reaction_ok s r"
  unfolding resolver_inv_def inv_promises_def by blast

lemma inv_run_reaction:
  assumes "resolver_inv s" and "reaction_ok s r"
  shows "resolver_inv (run_reaction v r s)"
proof (cases r)
  case (ClearTimeout t)
  with assms show ?thesis by (simp add: inv_clearTimeout)
next
  case (Settle q)
  show ?thesis
  proof (cases "map_of (promises s) q")
    case None
    with Settle assms(1) show ?thesis by simp
  next
    case (Some pr)
    from promise_reactions_ok [OF assms(1) Some]
    have ok: "\<forall>r\<in>set (reactions (pr\<lparr>settled := Some v\<rparr>)). reaction_ok s r" by simp
    from assms(2) Settle have notin: "q \<notin> pending_promise ` set (pendingPermissionRequests s)"
      by simp
    have "resolver_inv (s\<lparr> promises := AList.update q (pr\<lparr>settled := Some v\<rparr>) (promises s) \<rparr>)"
      by (rule inv_promise_update [OF assms(1) Some notin ok])
    with assms(1) Settle Some show ?thesis by simp
  qed
qed

lemma inv_fold_reactions:
  "resolver_inv s \<Longrightarrow> \<forall>r\<in>set rs. reaction_ok s r \<Longrightarrow>
   resolver_inv (fold (run_reaction v) rs s)"
  by (induction rs arbitrary: s) (simp_all add: inv_run_reaction reaction_ok_run_reaction)

lemma settle_promise_as_reactions:
  "settle_promise p v s =
     (case map_of (promises s) p of
        None \<Rightarrow> s
      | Some pr \<Rightarrow> if settled pr = None
                   then fold (run_reaction v) (reactions pr) (run_reaction v (Settle p) s)
                   else s)"
  by (simp add: settle_promise_def split: option.splits)

lemma inv_settle:
  assumes "resolver_inv s" and "p \<notin> pending_promise ` set (pendingPermissionRequests s)"
  shows "resolver_inv (settle_promise p v s)"
proof (cases "map_of (promises s) p")
  case None
  with assms(1) show ?thesis by (simp add: settle_promise_def)
next
  case (Some pr)
  from assms(1) Some have "p < next_promise s"
    unfolding resolver_inv_def inv_promises_def by blast
  with assms(2) have ok: "reaction_ok s (Settle p)" by simp
  have first: "resolver_inv (run_reaction v (Settle p) s)"
    by (rule inv_run_reaction [OF assms(1) ok])
  from promise_reactions_ok [OF assms(1) Some]
  have rest: "\<forall>r\<in>set (reactions pr). reaction_ok (run_reaction v (Settle p) s) r"
    unfolding reaction_ok_run_reaction .
  show ?thesis
  proof (cases "settled pr = None")
    case True
    with Some have "settle_promise p v s =
        fold (run_reaction v) (reactions pr) (run_reaction v (Settle p) s)"
      by (simp add: settle_promise_as_reactions del: run_reaction.simps)
    with inv_fold_reactions [OF first rest] show ?thesis by (simp del: run_reaction.simps)
  next
    case False
    with Some assms(1) show ?thesis by (auto simp add: settle_promise_def)
  qed
qed

lemma settle_promise_fields:
  "pendingPermissionRequests (settle_promise p v s) = pendingPermissionRequests s"
  "requests (settle_promise p v s) = requests s"
  "agentState (settle_promise p v s) = agentState s"
proof -
  have f: "pendingPermissionRequests (fold (run_reaction v) rs s') = pendingPermissionRequests s' \<and>
           requests (fold (run_reaction v) rs s') = requests s' \<and>
           agentState (fold (run_reaction v) rs s') = agentState s'" for rs s'
    by (induction rs arbitrary: s') (simp_all add: run_reaction_fields)
  show "pendingPermissionRequests (settle_promise p v s) = pendingPermissionRequests s"
    "requests (settle_promise p v s) = requests s"
    "agentState (settle_promise p v s) = agentState s"
    by (simp_all add: settle_promise_def f split: option.splits)
qed

lemma inv_add_reaction:
  assumes "resolver_inv s" and "reaction_ok s r"
    and "p \<notin> pending_promise ` set (pendingPermissionRequests s)"
  shows "resolver_inv (add_reaction p r s)"
proof (cases "map_of (promises s) p")
  case None
  with assms(1) show ?thesis by (simp add: add_reaction_def)
next
  case (Some pr)
  from promise_reactions_ok [OF assms(1) Some] assms(2)
  have "\<forall>x\<in>set (reactions (pr\<lparr>reactions := reactions pr @ [r]\<rparr>)). reaction_ok s x" by simp
  from inv_promise_update [OF assms(1) Some assms(3) this] Some
  show ?thesis by (simp add: add_reaction_def)
qed

lemma move_to_completed_other:
  "j \<noteq> i \<Longrightarrow> map_of (entries (st_requests (move_to_completed i now st rs a))) j =
               map_of (entries (st_requests a)) j"
  by (simp add: move_to_completed_def Let_def entries_def delete_conv')

lemma inv_forget:
  assumes "resolver_inv s"
  shows "resolver_inv (updateAgentState (move_to_completed i now st rs)
                         (s\<lparr> requests := AList.delete i (requests s) \<rparr>))"
proof -
  let ?s = "updateAgentState (move_to_completed i now st rs)
              (s\<lparr> requests := AList.delete i (requests s) \<rparr>)"
  from assms have it: "inv_timers s" and ip: "inv_promises s" and ic: "inv_callbacks s"
    unfolding resolver_inv_def by simp_all
  have ok: "reaction_ok ?s = reaction_ok s"
    by (rule ext, rule reaction_ok_cong) (simp_all add: updateAgentState_def)
  have sub: "map_of (requests s) j = Some cb \<and> j \<noteq> i"
    if "map_of (requests ?s) j = Some cb" for j cb
    using that by (simp add: updateAgentState_def delete_conv' split: if_splits)
  from it have "inv_timers ?s" unfolding inv_timers_def by (simp add: updateAgentState_def)
  moreover have "inv_promises ?s"
  proof -
    have d: "resolver_promise cb < next_promise s \<and>
        resolver_promise cb \<notin> pending_promise ` set (pendingPermissionRequests s)"
      if "map_of (requests ?s) j = Some cb" for j cb
      using sub [OF that] ip unfolding inv_promises_def by blast
    from ip have a: "\<forall>q pr. map_of (promises s) q = Some pr \<longrightarrow>
        q < next_promise s \<and> (\<forall>r\<in>set (reactions pr). reaction_ok s r)"
      and b: "\<forall>p\<in>set (pendingPermissionRequests s).
        map_of (promises s) (pending_promise p) = Some \<lparr> settled = None, reactions = [] \<rparr>"
      and c: "distinct (map pending_promise (pendingPermissionRequests s))"
      unfolding inv_promises_def by blast+
    have fields: "promises ?s = promises s" "next_promise ?s = next_promise s"
      "pendingPermissionRequests ?s = pendingPermissionRequests s"
      by (simp_all add: updateAgentState_def)
    from a b c d show ?thesis unfolding inv_promises_def ok fields by blast
  qed
  moreover have "inv_callbacks ?s"
  proof -
    have "map_of (entries (st_requests (agentState ?s))) j \<noteq> None"
      if "map_of (requests ?s) j = Some cb" for j cb
    proof -
      from sub [OF that] have m: "map_of (requests s) j = Some cb" and ne: "j \<noteq> i" by simp_all
      from m ic have "map_of (entries (st_requests (agentState s))) j \<noteq> None"
        unfolding inv_callbacks_def by blast
      with ne show ?thesis by (simp add: updateAgentState_def move_to_completed_other)
    qed
    then show ?thesis unfolding inv_callbacks_def by blast
  qed
  ultimately show ?thesis unfolding resolver_inv_def by simp
qed

lemma inv_unshift: "resolver_inv (unshift a b s) = resolver_inv s"
  by (rule inv_frame) (simp_all add: unshift_def)

lemma inv_call_resolver:
  assumes "resolver_inv s"
    and "resolver_promise cb \<notin> pending_promise ` set (pendingPermissionRequests s)"
  shows "resolver_inv (call_resolver e cb r s)"
proof (cases cb)
  case (Resolve p)
  with assms show ?thesis by (simp add: inv_settle)
next
  case (WrappedResolve p)
  have q: "pendingPermissionRequests (unshift a b s) = pendingPermissionRequests s" for a b
    by (simp add: unshift_def)
  have "resolver_inv (settle_promise p v (unshift a b s))" for v a b
    using assms WrappedResolve by (intro inv_settle) (simp_all add: inv_unshift q)
  with assms WrappedResolve show ?thesis
    by (simp add: inv_settle split: option.splits)
qed

lemma inv_permission_handler:
  assumes "resolver_inv s"
  shows "resolver_inv (permission_handler e now message s)"
proof (cases "map_of (requests s) (msg_id message)")
  case None
  with assms show ?thesis by (simp add: permission_handler_def)
next
  case (Some cb)
  let ?s1 = "s\<lparr> responses := AList.update (msg_id message) message (responses s) \<rparr>"
  let ?r = "\<lparr> approved = msg_approved message, reason = msg_reason message,
             mode = msg_mode message \<rparr>"
  let ?s2 = "call_resolver e cb ?r ?s1"
  have "resolver_inv ?s1 = resolver_inv s" by (rule inv_frame) simp_all
  with assms have i1: "resolver_inv ?s1" by simp
  from assms Some
  have "resolver_promise cb \<notin> pending_promise ` set (pendingPermissionRequests s)"
    unfolding resolver_inv_def inv_promises_def by blast
  then have "resolver_promise cb \<notin> pending_promise ` set (pendingPermissionRequests ?s1)"
    by simp
  from inv_call_resolver [OF i1 this] have i2: "resolver_inv ?s2" .
  from Some have "permission_handler e now message s =
      updateAgentState
        (move_to_completed (msg_id message) now
           (\<lambda>entry. if isExitPlanModeSuccess e message entry then ''approved''
                    else if msg_approved message then ''approved'' else ''denied'')
           (\<lambda>entry. if isExitPlanModeSuccess e message entry then Some ''Plan approved''
                    else msg_reason message))
        (?s2\<lparr> requests := AList.delete (msg_id message) (requests ?s2) \<rparr>)"
    by (simp add: permission_handler_def Let_def)
  with inv_forget [OF i2] show ?thesis by simp
qed

lemma timer_fires_queue:
  assumes "resolver_inv s" and k: "k < length (pendingPermissionRequests s)"
  shows "timer_fires now (timeout (pendingPermissionRequests s ! k)) s =
           settle_promise (pending_promise (pendingPermissionRequests s ! k))
             (Inl (Error (''Timeout: Tool call ID never arrived for '' @
                          req_name (request (pendingPermissionRequests s ! k)))))
             (dequeue k s)"
proof -
  let ?p = "pendingPermissionRequests s ! k"
  from assms(1) have it: "inv_timers s" unfolding resolver_inv_def by simp
  from k have "?p \<in> set (pendingPermissionRequests s)" by simp
  with it have armed: "map_of (timers s) (timeout ?p) =
      Some (QueueTimeout (request ?p) (pending_promise ?p))"
    unfolding inv_timers_def by blast
  from it have "distinct (map (\<lambda>p. req_addr (request p)) (pendingPermissionRequests s))"
    unfolding inv_timers_def by blast
  from findIndex_distinct [OF this k]
  have "findIndex (\<lambda>p. req_addr (request p) = req_addr (request ?p))
          (pendingPermissionRequests s) = Some k" .
  with armed show ?thesis
    by (simp add: timer_fires_def queue_timeout_def dequeue_def clearTimeout_def)
qed

lemma inv_timer_fires:
  assumes "resolver_inv s"
  shows "resolver_inv (timer_fires now t s)"
proof (cases "map_of (timers s) t")
  case None
  with assms show ?thesis by (simp add: timer_fires_def)
next
  case (Some a)
  from assms have it: "inv_timers s" unfolding resolver_inv_def by simp
  show ?thesis
  proof (cases a)
    case (DecisionTimeout i)
    have "t \<notin> timeout ` set (pendingPermissionRequests s)"
    proof
      assume "t \<in> timeout ` set (pendingPermissionRequests s)"
      then obtain p where "p \<in> set (pendingPermissionRequests s)" and "t = timeout p"
        by (rule imageE)
      with it have "map_of (timers s) t = Some (QueueTimeout (request p) (pending_promise p))"
        unfolding inv_timers_def by blast
      with Some DecisionTimeout show False by simp
    qed
    from inv_forget [OF inv_clearTimeout [OF assms this]] Some DecisionTimeout
    show ?thesis by (simp add: timer_fires_def decision_timeout_def)
  next
    case (QueueTimeout req q)
    with Some it have "t \<in> timeout ` set (pendingPermissionRequests s)"
      unfolding inv_timers_def by blast
    then obtain p where "p \<in> set (pendingPermissionRequests s)" and t: "t = timeout p"
      by (rule imageE)
    then obtain k where k: "k < length (pendingPermissionRequests s)"
      and p: "pendingPermissionRequests s ! k = p"
      by (auto simp add: in_set_conv_nth)
    from assms have ip: "inv_promises s" unfolding resolver_inv_def by simp
    have "resolver_inv (settle_promise (pending_promise (pendingPermissionRequests s ! k)) v
                          (dequeue k s))" for v
      by (rule inv_settle [OF inv_dequeue [OF assms k] dequeued_promise_gone [OF ip k]])
    with timer_fires_queue [OF assms k, of now] t p show ?thesis by simp
  qed
qed

lemma scan_pending_none:
  "\<forall>j<n. \<not> pending_matches e name input (queue ! j) \<Longrightarrow>
   scan_pending e name input queue n = None"
  by (induction n) (auto simp add: pending_matches_def Let_def)

lemma scan_pending_last:
  "k < n \<Longrightarrow> pending_matches e name input (queue ! k) \<Longrightarrow>
   \<forall>j. k < j \<and> j < n \<longrightarrow> \<not> pending_matches e name input (queue ! j) \<Longrightarrow>
   scan_pending e name input queue n = Some k"
proof (induction n)
  case 0
  then show ?case by simp
next
  case (Suc n)
  show ?case
  proof (cases "k = n")
    case True
    with Suc.prems show ?thesis by (simp add: pending_matches_def Let_def)
  next
    case False
    with Suc.prems have less: "k < n" by simp
    from Suc.prems False have here: "\<not> pending_matches e name input (queue ! n)" by simp
    from Suc.prems have "\<forall>j. k < j \<and> j < n \<longrightarrow> \<not> pending_matches e name input (queue ! j)"
      by simp
    with Suc.IH less Suc.prems(2) have "scan_pending e name input queue n = Some k" by blast
    with here show ?thesis by (auto simp add: pending_matches_def Let_def)
  qed
qed

lemma scan_pending_some:
  "scan_pending e name input queue n = Some k \<Longrightarrow> k < n"
  by (induction n) (auto simp add: Let_def split: if_splits)

lemma tool_use_unmatched:
  "scan_pending e name input (pendingPermissionRequests s)
     (length (pendingPermissionRequests s)) = None \<Longrightarrow>
   tool_use e now i name input s =
     s\<lparr> toolCalls := toolCalls s @
          [\<lparr> tc_id = i, tc_name = name, tc_input = input, used = False \<rparr>] \<rparr>"
  by (simp add: tool_use_def Let_def)

lemma tool_use_matched:
  "scan_pending e name input (pendingPermissionRequests s)
     (length (pendingPermissionRequests s)) = Some k \<Longrightarrow>
   tool_use e now i name input s =
     add_reaction (next_promise s) (Settle (pending_promise (pendingPermissionRequests s ! k)))
       (snd (handlePermissionRequest e now i (request (pendingPermissionRequests s ! k))
          (dequeue k (s\<lparr> toolCalls := toolCalls s @
             [\<lparr> tc_id = i, tc_name = name, tc_input = input, used = False \<rparr>] \<rparr>))))"
  by (simp add: tool_use_def Let_def dequeue_def clearTimeout_def handlePermissionRequest_eq)

lemma inv_toolCalls: "resolver_inv (s\<lparr> toolCalls := c \<rparr>) = resolver_inv s"
  by (rule inv_frame) simp_all

lemma inv_tool_use:
  assumes "resolver_inv s"
  shows "resolver_inv (tool_use e now i name input s)"
proof (cases "scan_pending e name input (pendingPermissionRequests s)
                (length (pendingPermissionRequests s))")
  case None
  with assms show ?thesis by (simp add: tool_use_unmatched inv_toolCalls)
next
  case (Some k)
  let ?s1 = "s\<lparr> toolCalls := toolCalls s @
               [\<lparr> tc_id = i, tc_name = name, tc_input = input, used = False \<rparr>] \<rparr>"
  let ?q = "pending_promise (pendingPermissionRequests s ! k)"
  let ?h = "snd (handlePermissionRequest e now i (request (pendingPermissionRequests s ! k))
                  (dequeue k ?s1))"
  from assms have i1: "resolver_inv ?s1" by (simp add: inv_toolCalls)
  from scan_pending_some [OF Some] have k: "k < length (pendingPermissionRequests ?s1)" by simp
  have i2: "resolver_inv (dequeue k ?s1)" by (rule inv_dequeue [OF i1 k])
  have i3: "resolver_inv ?h" by (rule inv_handle [OF i2])
  from i1 have ip: "inv_promises ?s1" unfolding resolver_inv_def by simp
  from dequeued_promise_gone [OF ip k]
  have gone: "?q \<notin> pending_promise ` set (pendingPermissionRequests ?h)"
    by (simp add: handlePermissionRequest_eq)
  from k have "pendingPermissionRequests s ! k \<in> set (pendingPermissionRequests ?s1)" by simp
  from queue_promise_bound [OF ip this] have "?q < next_promise ?h"
    by (simp add: handlePermissionRequest_eq dequeue_fields)
  with gone have ok: "reaction_ok ?h (Settle ?q)" by simp
  from i2 have "inv_promises (dequeue k ?s1)" unfolding resolver_inv_def by simp
  from next_promise_fresh [OF this]
  have fresh: "next_promise s \<notin> pending_promise ` set (pendingPermissionRequests ?h)"
    by (simp add: handlePermissionRequest_eq dequeue_fields)
  from inv_add_reaction [OF i3 ok fresh] show ?thesis
    by (simp add: tool_use_matched [OF Some])
qed

lemma inv_tool_result: "resolver_inv (tool_result i s) = resolver_inv s"
  by (rule inv_frame) (simp_all add: tool_result_def split: option.splits)

lemma inv_onMessage:
  assumes "resolver_inv s"
  shows "resolver_inv (onMessage e now m s)"
proof -
  have a: "resolver_inv (assistant_block e now b s')" if "resolver_inv s'" for b s'
    using that by (cases b) (simp_all add: inv_tool_use)
  have u: "resolver_inv (user_block b s')" if "resolver_inv s'" for b s'
    using that by (cases "(b, s')" rule: user_block.cases) (simp_all add: inv_tool_result)
  have fa: "resolver_inv s' \<Longrightarrow> resolver_inv (fold (assistant_block e now) bs s')" for bs s'
    by (induction bs arbitrary: s') (simp_all add: a)
  have fu: "resolver_inv s' \<Longrightarrow> resolver_inv (fold user_block bs s')" for bs s'
    by (induction bs arbitrary: s') (simp_all add: u)
  from assms fa fu show ?thesis
    by (cases "(e, now, m, s)" rule: onMessage.cases) simp_all
qed

lemma inv_reset:
  assumes "resolver_inv s"
  shows "resolver_inv (reset now s)"
proof -
  from assms have it: "inv_timers s" and ip: "inv_promises s"
    unfolding resolver_inv_def by simp_all
  have a: "t < next_timer s" if "map_of (timers (reset now s)) t = Some a" for t a
  proof -
    from that have "map_of (timers s) t = Some a"
      by (simp add: reset_eq map_of_fold_delete split: if_splits)
    with it show ?thesis unfolding inv_timers_def by blast
  qed
  have c: "False" if "map_of (timers (reset now s)) t = Some (QueueTimeout req q)" for t req q
  proof -
    from that have n: "t \<notin> timeout ` set (pendingPermissionRequests s)"
      and "map_of (timers s) t = Some (QueueTimeout req q)"
      by (simp_all add: reset_eq map_of_fold_delete split: if_splits)
    with it show False unfolding inv_timers_def by blast
  qed
  from a c have "inv_timers (reset now s)"
    unfolding inv_timers_def by (auto simp add: reset_eq)
  moreover have "inv_promises (reset now s)"
  proof -
    have "reaction_ok (reset now s) r" if "reaction_ok s r" for r
      using that by (cases r) (simp_all add: reset_eq)
    with ip show ?thesis unfolding inv_promises_def by (auto simp add: reset_eq)
  qed
  moreover have "inv_callbacks (reset now s)"
    unfolding inv_callbacks_def by (simp add: reset_eq)
  ultimately show ?thesis unfolding resolver_inv_def by simp
qed

lemma inv_submit:
  assumes "resolver_inv s"
  shows "resolver_inv (snd (submit e now name args s))"
proof -
  let ?req = "\<lparr> req_addr = next_addr s, req_name = name, req_arguments = args \<rparr>"
  let ?s1 = "s\<lparr> next_addr := Suc (next_addr s),
               toolCalls := snd (resolveToolCallId e name args (toolCalls s)) \<rparr>"
  from assms have it: "inv_timers s" and ip: "inv_promises s" and ic: "inv_callbacks s"
    unfolding resolver_inv_def by simp_all
  from it have "inv_timers ?s1" unfolding inv_timers_def by (auto simp add: less_Suc_eq)
  moreover have "reaction_ok ?s1 = reaction_ok s"
    by (rule ext, rule reaction_ok_cong) simp_all
  with ip have "inv_promises ?s1" unfolding inv_promises_def by simp
  moreover from ic have "inv_callbacks ?s1" unfolding inv_callbacks_def by simp
  ultimately have i1: "resolver_inv ?s1" unfolding resolver_inv_def by simp
  have addr: "req_addr ?req < next_addr ?s1" by simp
  have fresh: "req_addr ?req \<notin> (\<lambda>p. req_addr (request p)) ` set (pendingPermissionRequests ?s1)"
  proof
    assume "req_addr ?req \<in> (\<lambda>p. req_addr (request p)) ` set (pendingPermissionRequests ?s1)"
    then obtain p where "p \<in> set (pendingPermissionRequests s)"
      and "next_addr s = req_addr (request p)"
      by auto
    with it show False unfolding inv_timers_def by auto
  qed
  have q: "resolver_inv (snd (enqueue ?req ?s1))"
    by (rule inv_enqueue [OF i1 addr fresh])
  have h: "resolver_inv (snd (handlePermissionRequest e now i ?req ?s1))" for i
    by (rule inv_handle [OF i1])
  from q h show ?thesis
    by (simp add: submit_def Let_def split: option.splits)
qed

lemma inv_init: "resolver_inv init"
  by (simp add: resolver_inv_def inv_timers_def inv_promises_def inv_callbacks_def init_def)

lemma inv_step: "resolver_inv s \<Longrightarrow> resolver_inv (step e s ev)"
  by (cases "(e, s, ev)" rule: step.cases)
     (simp_all add: inv_submit inv_onMessage inv_permission_handler inv_timer_fires inv_reset)

lemma inv_run: "resolver_inv (run e evs)"
proof -
  have "resolver_inv s \<Longrightarrow> resolver_inv (foldl (step e) s evs)" for s
    by (induction evs arbitrary: s) (simp_all add: inv_step)
  with inv_init show ?thesis by (simp add: run_def)
qed

lemma splice1_filter:
  assumes "distinct xs" and "k < length xs"
  shows "splice1 k xs = filter (\<lambda>x. x \<noteq> xs ! k) xs"
proof -
  from assms(2) have xs: "xs = take k xs @ xs ! k # drop (Suc k) xs"
    by (simp add: id_take_nth_drop)
  with assms(1) have "distinct (take k xs @ xs ! k # drop (Suc k) xs)" by simp
  then have "xs ! k \<notin> set (take k xs)" and "xs ! k \<notin> set (drop (Suc k) xs)" by auto
  then have "filter (\<lambda>x. x \<noteq> xs ! k) (take k xs) = take k xs"
    and "filter (\<lambda>x. x \<noteq> xs ! k) (drop (Suc k) xs) = drop (Suc k) xs"
    by (auto simp add: filter_id_conv)
  then have "filter (\<lambda>x. x \<noteq> xs ! k) (take k xs @ xs ! k # drop (Suc k) xs) =
             take k xs @ drop (Suc k) xs"
    by simp
  with xs show ?thesis by (simp add: splice1_def)
qed

lemma queue_distinct:
  assumes "inv_timers s"
  shows "distinct (pendingPermissionRequests s)"
proof -
  from assms have "distinct (map timeout (pendingPermissionRequests s))"
    unfolding inv_timers_def by blast
  then show ?thesis by (simp add: distinct_map)
qed

section \<open>What reset leaves behind\<close>

text \<open>
  C8, as the code has it. After \<^verbatim>\<open>reset()\<close> the ledger, the callbacks in \<^verbatim>\<open>requests\<close>, the
  stored responses and the queue are empty, \<^verbatim>\<open>requests\<close> of the agent state is empty, and
  the 30 second timer of every request that was queued is cleared. Every other timer, so
  every 4.5 minute decision timer, is armed after the reset exactly if it was armed
  before: \<^verbatim>\<open>reset()\<close> holds no handle of them, and in a state reached by a run of the
  resolver a decision timer that is armed is still armed after the reset. Every entry that was pending in the agent
  state under an id other than \<^verbatim>\<open>__proto__\<close> is in \<^verbatim>\<open>completedRequests\<close> with status \<^verbatim>\<open>canceled\<close>
  and reason \<^verbatim>\<open>Session switched to local mode\<close> (the own members of an object have distinct
  keys). If no pending id is \<^verbatim>\<open>__proto__\<close>, a second \<^verbatim>\<open>reset()\<close> changes nothing.
\<close>

theorem reset_cancels_pending:
  "toolCalls (reset now s) = [] \<and>
   requests (reset now s) = [] \<and>
   responses (reset now s) = [] \<and>
   pendingPermissionRequests (reset now s) = [] \<and>
   st_requests (agentState (reset now s)) = Some [] \<and>
   (\<forall>pending\<in>set (pendingPermissionRequests s).
      map_of (timers (reset now s)) (timeout pending) = None) \<and>
   (\<forall>t. t \<notin> timeout ` set (pendingPermissionRequests s) \<longrightarrow>
      map_of (timers (reset now s)) t = map_of (timers s) t) \<and>
   (distinct (map fst (entries (st_requests (agentState s)))) \<longrightarrow>
    (\<forall>i entry. i \<noteq> ''__proto__'' \<and>
       map_of (entries (st_requests (agentState s))) i = Some entry \<longrightarrow>
       map_of (entries (completedRequests (agentState (reset now s)))) i =
         Some \<lparr> request_members = Some entry, completedAt = now, status = ''canceled'',
                status_reason = Some ''Session switched to local mode'' \<rparr>)) \<and>
   (map_of (entries (st_requests (agentState s))) ''__proto__'' = None \<longrightarrow>
      reset now' (reset now s) = reset now s) \<and>
   (map_of (timers (run e evs)) handle = Some (DecisionTimeout j) \<longrightarrow>
      map_of (timers (reset now (run e evs))) handle = Some (DecisionTimeout j))"
proof -
  have survives: "map_of (timers (reset now (run e evs))) handle = Some (DecisionTimeout j)"
    if armed: "map_of (timers (run e evs)) handle = Some (DecisionTimeout j)"
  proof -
    have "inv_timers (run e evs)"
      using inv_run [of e evs] unfolding resolver_inv_def by simp
    then have "\<forall>pending\<in>set (pendingPermissionRequests (run e evs)).
        map_of (timers (run e evs)) (timeout pending) =
          Some (QueueTimeout (request pending) (pending_promise pending))"
      unfolding inv_timers_def by blast
    with armed have "handle \<notin> timeout ` set (pendingPermissionRequests (run e evs))"
      by auto
    with armed show ?thesis
      by (simp add: reset_eq map_of_fold_delete)
  qed
  have idem: "map_of (entries (st_requests (agentState s))) ''__proto__'' = None \<longrightarrow>
      reset now' (reset now s) = reset now s"
    by (simp add: reset_idem)
  have fields: "toolCalls (reset now s) = [] \<and> requests (reset now s) = [] \<and>
      responses (reset now s) = [] \<and> pendingPermissionRequests (reset now s) = [] \<and>
      st_requests (agentState (reset now s)) = Some []"
    by (simp add: reset_eq cancel_all_def Let_def)
  have cleared: "\<forall>pending\<in>set (pendingPermissionRequests s).
      map_of (timers (reset now s)) (timeout pending) = None"
    by (simp add: reset_eq map_of_fold_delete)
  have kept: "\<forall>t. t \<notin> timeout ` set (pendingPermissionRequests s) \<longrightarrow>
      map_of (timers (reset now s)) t = map_of (timers s) t"
    by (simp add: reset_eq map_of_fold_delete)
  have canceled: "map_of (entries (completedRequests (agentState (reset now s)))) i =
         Some \<lparr> request_members = Some entry, completedAt = now, status = ''canceled'',
                status_reason = Some ''Session switched to local mode'' \<rparr>"
    if d: "distinct (map fst (entries (st_requests (agentState s))))"
      and ne: "i \<noteq> ''__proto__''"
      and p: "map_of (entries (st_requests (agentState s))) i = Some entry" for i entry
  proof -
    have "completedRequests (agentState (reset now s)) =
            Some (fst (fold (\<lambda>(k, entry). assign_member k
                      \<lparr> request_members = Some entry, completedAt = now,
                        status = ''canceled'',
                        status_reason = Some ''Session switched to local mode'' \<rparr>)
                    (entries (st_requests (agentState s)))
                    (entries (completedRequests (agentState s)), None)))"
      by (simp add: reset_eq cancel_all_def Let_def)
    then show ?thesis
      using cancel_all_fold [OF d ne, where
          f = "\<lambda>entry. \<lparr> request_members = Some entry, completedAt = now,
                         status = ''canceled'',
                         status_reason = Some ''Session switched to local mode'' \<rparr>"] p
      by (simp add: entries_def)
  qed
  from idem fields cleared kept canceled survives show ?thesis by blast
qed

text \<open>
  One pending decision and one queued request are reset at time 7: the queue timer 1 is
  cleared, the decision timer 0 stays armed, \<^verbatim>\<open>tc_1\<close> is canceled, and a second reset at time
  8 changes nothing.
\<close>

theorem reset_cancels_pending_witness:
  "map_of (timers pending_and_queued) 1 \<noteq> None \<and>
   map_of (timers (reset 7 pending_and_queued)) 1 = None \<and>
   map_of (timers (reset 7 pending_and_queued)) 0 = map_of (timers pending_and_queued) 0 \<and>
   map_of (timers pending_and_queued) 0 = Some (DecisionTimeout ''tc_1'') \<and>
   map_of (timers (reset 7 pending_and_queued)) 0 = Some (DecisionTimeout ''tc_1'') \<and>
   map_of (entries (completedRequests (agentState (reset 7 pending_and_queued)))) ''tc_1'' =
     Some \<lparr> request_members = Some \<lparr> tool = ''Bash'', arguments = ls, createdAt = 2 \<rparr>,
            completedAt = 7, status = ''canceled'',
            status_reason = Some ''Session switched to local mode'' \<rparr> \<and>
   reset 8 (reset 7 pending_and_queued) = reset 7 pending_and_queued"
proof -
  have queue: "map timeout (pendingPermissionRequests pending_and_queued) = [1]"
    by (simp add: pending_and_queued_def run_def init_def example_env_def ls_def
        resolver_defs Let_def)
  have armed: "timers pending_and_queued =
      [(0, DecisionTimeout ''tc_1''),
       (1, QueueTimeout \<lparr> req_addr = 1, req_name = ''Bash'', req_arguments = ls \<rparr> 1)]"
    by (simp add: pending_and_queued_def run_def init_def example_env_def ls_def
        resolver_defs Let_def)
  have pending: "st_requests (agentState pending_and_queued) =
      Some [(''tc_1'', \<lparr> tool = ''Bash'', arguments = ls, createdAt = 2 \<rparr>)]"
    by (simp add: pending_and_queued_def run_def init_def example_env_def ls_def
        resolver_defs Let_def)
  from queue have q: "timeout ` set (pendingPermissionRequests pending_and_queued) = {1}"
    by (metis list.set_map list.simps(15) empty_set)
  note r = reset_cancels_pending
      [of 7 pending_and_queued 8 example_env
          "[(1, Message (Assistant (Some [ToolUse ''tc_1'' ''Bash'' ls]))),
            (2, Submit ''Bash'' ls),
            (3, Submit ''Bash'' ls)]" 0 "''tc_1''",
       folded pending_and_queued_def]
  from r have "\<forall>pending\<in>set (pendingPermissionRequests pending_and_queued).
      map_of (timers (reset 7 pending_and_queued)) (timeout pending) = None"
    by (elim conjE)
  with q have cleared: "map_of (timers (reset 7 pending_and_queued)) 1 = None"
    by (metis imageE insertI1)
  from r have "\<forall>t. t \<notin> timeout ` set (pendingPermissionRequests pending_and_queued) \<longrightarrow>
      map_of (timers (reset 7 pending_and_queued)) t = map_of (timers pending_and_queued) t"
    by (elim conjE)
  with q armed have other: "map_of (timers (reset 7 pending_and_queued)) 0 =
      map_of (timers pending_and_queued) 0"
    by simp
  from armed have decision: "map_of (timers pending_and_queued) 0 = Some (DecisionTimeout ''tc_1'')"
    by simp
  from r have "map_of (timers pending_and_queued) 0 = Some (DecisionTimeout ''tc_1'') \<longrightarrow>
      map_of (timers (reset 7 pending_and_queued)) 0 = Some (DecisionTimeout ''tc_1'')"
    by (elim conjE)
  with decision have kept: "map_of (timers (reset 7 pending_and_queued)) 0 =
      Some (DecisionTimeout ''tc_1'')"
    by (rule rev_mp)
  have d: "distinct (map fst (entries (st_requests (agentState pending_and_queued))))"
    by (simp add: pending entries_def)
  have p: "map_of (entries (st_requests (agentState pending_and_queued))) ''tc_1'' =
      Some \<lparr> tool = ''Bash'', arguments = ls, createdAt = 2 \<rparr>"
    by (simp add: pending entries_def)
  from r d have "\<forall>i entry. i \<noteq> ''__proto__'' \<and>
       map_of (entries (st_requests (agentState pending_and_queued))) i = Some entry \<longrightarrow>
       map_of (entries (completedRequests (agentState (reset 7 pending_and_queued)))) i =
         Some \<lparr> request_members = Some entry, completedAt = 7, status = ''canceled'',
                status_reason = Some ''Session switched to local mode'' \<rparr>"
    by (elim conjE) (rule mp)
  with p have canceled:
    "map_of (entries (completedRequests (agentState (reset 7 pending_and_queued)))) ''tc_1'' =
       Some \<lparr> request_members = Some \<lparr> tool = ''Bash'', arguments = ls, createdAt = 2 \<rparr>,
              completedAt = 7, status = ''canceled'',
              status_reason = Some ''Session switched to local mode'' \<rparr>"
    by simp
  have none: "map_of (entries (st_requests (agentState pending_and_queued))) ''__proto__'' = None"
    by (simp add: pending entries_def)
  from r have "map_of (entries (st_requests (agentState pending_and_queued))) ''__proto__'' = None \<longrightarrow>
      reset 8 (reset 7 pending_and_queued) = reset 7 pending_and_queued"
    by (elim conjE)
  with none have again: "reset 8 (reset 7 pending_and_queued) = reset 7 pending_and_queued"
    by (rule rev_mp)
  from armed have before: "map_of (timers pending_and_queued) 1 \<noteq> None"
    by simp
  from before cleared other decision kept canceled again show ?thesis by simp
qed

text \<open>
  C8, as the claim states it, fails on the decision timers: after a reset of the state with
  one pending decision, the 4.5 minute timer of \<^verbatim>\<open>tc_1\<close> is still armed.
\<close>

theorem reset_leaves_decision_timer_counterexample:
  "map_of (timers (reset 5 one_pending)) 0 = Some (DecisionTimeout ''tc_1'')"
  by (simp add: one_pending_def run_def init_def example_env_def ls_def resolver_defs Let_def)

section \<open>The queue timeout\<close>

text \<open>
  A request that finds no ledger entry to take is put at the end of the queue, with a new
  pending promise, which the caller receives, and a new 30 second timer.
\<close>

lemma submit_unmatched_is_queued:
  assumes "fst (resolveToolCallId e name args (toolCalls s)) = None"
  shows "fst (submit e now name args s) = next_promise s"
    and "pendingPermissionRequests (snd (submit e now name args s)) =
           pendingPermissionRequests s @
             [\<lparr> request = \<lparr> req_addr = next_addr s, req_name = name, req_arguments = args \<rparr>,
                pending_promise = next_promise s, timeout = next_timer s \<rparr>]"
  using assms by (simp_all add: submit_def enqueue_def Let_def)

text \<open>
  C4, as the code has it. Take any state reached by a run of the resolver and any request
  still in the queue: no matching tool call has arrived for it and no \<^verbatim>\<open>reset()\<close> has
  emptied the queue. Its 30 second timer is armed and its promise is pending. When the
  timer fires, the entry is taken out of the queue and then the promise is rejected with
  the error whose message is \<^verbatim>\<open>Timeout: Tool call ID never arrived for \<close> followed by the
  tool name: the state after the timer is the rejection applied to the state without the
  entry. Afterwards the promise of the caller holds that error, the queue is the old
  queue without the entry, no entry for that request object is left, the handle is spent,
  and the agent state is untouched. If \<^verbatim>\<open>reset()\<close> runs instead, the queue is emptied and the
  timer of the request is cleared, and its promise stays pending.
\<close>

theorem queue_timeout_rejects:
  assumes "pending \<in> set (pendingPermissionRequests (run e evs))"
  shows "let s = run e evs;
             err = Error (''Timeout: Tool call ID never arrived for '' @ req_name (request pending));
             s' = timer_fires now (timeout pending) s
         in map_of (timers s) (timeout pending) =
              Some (QueueTimeout (request pending) (pending_promise pending)) \<and>
            map_of (promises s) (pending_promise pending) =
              Some \<lparr> settled = None, reactions = [] \<rparr> \<and>
            s' = settle_promise (pending_promise pending) (Inl err)
                   (s\<lparr> timers := AList.delete (timeout pending) (timers s),
                       pendingPermissionRequests :=
                         filter (\<lambda>p. p \<noteq> pending) (pendingPermissionRequests s) \<rparr>) \<and>
            map_of (promises s') (pending_promise pending) =
              Some \<lparr> settled = Some (Inl err), reactions = [] \<rparr> \<and>
            pendingPermissionRequests s' =
              filter (\<lambda>p. p \<noteq> pending) (pendingPermissionRequests s) \<and>
            (\<forall>p\<in>set (pendingPermissionRequests s').
               req_addr (request p) \<noteq> req_addr (request pending)) \<and>
            map_of (timers s') (timeout pending) = None \<and>
            agentState s' = agentState s \<and>
            pendingPermissionRequests (reset now s) = [] \<and>
            map_of (timers (reset now s)) (timeout pending) = None \<and>
            map_of (promises (reset now s)) (pending_promise pending) =
              Some \<lparr> settled = None, reactions = [] \<rparr>"
proof -
  define s where "s = run e evs"
  define err where
    "err = Error (''Timeout: Tool call ID never arrived for '' @ req_name (request pending))"
  define mid where
    "mid = s\<lparr> timers := AList.delete (timeout pending) (timers s),
              pendingPermissionRequests :=
                filter (\<lambda>p. p \<noteq> pending) (pendingPermissionRequests s) \<rparr>"
  define s' where "s' = timer_fires now (timeout pending) s"
  have inv: "resolver_inv s" unfolding s_def by (rule inv_run)
  then have it: "inv_timers s" and ip: "inv_promises s"
    unfolding resolver_inv_def by simp_all
  from assms have mem: "pending \<in> set (pendingPermissionRequests s)" by (simp add: s_def)
  then obtain k where k: "k < length (pendingPermissionRequests s)"
    and at: "pendingPermissionRequests s ! k = pending"
    by (auto simp add: in_set_conv_nth)
  from it mem have armed: "map_of (timers s) (timeout pending) =
      Some (QueueTimeout (request pending) (pending_promise pending))"
    unfolding inv_timers_def by blast
  from ip mem have unsettled: "map_of (promises s) (pending_promise pending) =
      Some \<lparr> settled = None, reactions = [] \<rparr>"
    unfolding inv_promises_def by blast
  from splice1_filter [OF queue_distinct [OF it] k] at
  have "dequeue k s = mid"
    by (simp add: dequeue_def clearTimeout_def mid_def)
  with timer_fires_queue [OF inv k, of now] at
  have fired: "s' = settle_promise (pending_promise pending) (Inl err) mid"
    by (simp add: s'_def err_def)
  from unsettled have "map_of (promises mid) (pending_promise pending) =
      Some \<lparr> settled = None, reactions = [] \<rparr>"
    by (simp add: mid_def)
  then have after: "s' = mid\<lparr> promises := AList.update (pending_promise pending)
                       \<lparr> settled = Some (Inl err), reactions = [] \<rparr> (promises mid) \<rparr>"
    by (simp add: fired settle_promise_def)
  then have rejected: "map_of (promises s') (pending_promise pending) =
      Some \<lparr> settled = Some (Inl err), reactions = [] \<rparr>"
    by (simp add: update_conv')
  from after have queue: "pendingPermissionRequests s' =
      filter (\<lambda>p. p \<noteq> pending) (pendingPermissionRequests s)"
    by (simp add: mid_def)
  have gone: "req_addr (request p) \<noteq> req_addr (request pending)"
    if "p \<in> set (pendingPermissionRequests s')" for p
  proof -
    from that queue have p: "p \<in> set (pendingPermissionRequests s)" and ne: "p \<noteq> pending"
      by simp_all
    from it have "distinct (map (\<lambda>p. req_addr (request p)) (pendingPermissionRequests s))"
      unfolding inv_timers_def by blast
    then have "inj_on (\<lambda>p. req_addr (request p)) (set (pendingPermissionRequests s))"
      by (simp add: distinct_map)
    with p mem ne show ?thesis by (auto dest: inj_onD)
  qed
  from after have spent: "map_of (timers s') (timeout pending) = None"
    by (simp add: mid_def delete_conv')
  from after have agent: "agentState s' = agentState s"
    by (simp add: mid_def)
  have dropped: "pendingPermissionRequests (reset now s) = []"
    by (simp add: reset_eq)
  from mem have unarmed: "map_of (timers (reset now s)) (timeout pending) = None"
    by (simp add: reset_eq map_of_fold_delete)
  from unsettled have dangling: "map_of (promises (reset now s)) (pending_promise pending) =
      Some \<lparr> settled = None, reactions = [] \<rparr>"
    by (simp add: reset_eq)
  from armed unsettled fired rejected queue gone spent agent dropped unarmed dangling
  show ?thesis
    unfolding Let_def s_def [symmetric] err_def [symmetric] s'_def [symmetric]
      mid_def [symmetric]
    by blast
qed

text \<open>The queued request for \<^verbatim>\<open>Bash\<close> times out at time 31.\<close>

theorem queue_timeout_rejects_witness:
  "queued_ls \<in> set (pendingPermissionRequests one_queued) \<and>
   map_of (promises (timer_fires 31 0 one_queued)) 0 =
     Some \<lparr> settled = Some (Inl (Error ''Timeout: Tool call ID never arrived for Bash'')),
            reactions = [] \<rparr> \<and>
   pendingPermissionRequests (timer_fires 31 0 one_queued) = []"
proof -
  have q: "pendingPermissionRequests one_queued = [queued_ls]"
    by (simp add: one_queued_def queued_ls_def run_def init_def example_env_def ls_def
        resolver_defs Let_def)
  then have mem: "queued_ls \<in> set (pendingPermissionRequests (run example_env [(1, Submit ''Bash'' ls)]))"
    by (simp add: one_queued_def)
  note fired = queue_timeout_rejects [OF mem, of 31, unfolded Let_def, folded one_queued_def]
  from fired have "map_of (promises (timer_fires 31 (timeout queued_ls) one_queued))
        (pending_promise queued_ls) =
      Some \<lparr> settled = Some (Inl (Error (''Timeout: Tool call ID never arrived for '' @
                                           req_name (request queued_ls)))),
             reactions = [] \<rparr>"
    by blast
  then have rejected: "map_of (promises (timer_fires 31 0 one_queued)) 0 =
     Some \<lparr> settled = Some (Inl (Error ''Timeout: Tool call ID never arrived for Bash'')),
            reactions = [] \<rparr>"
    by (simp add: queued_ls_def)
  from fired have "pendingPermissionRequests (timer_fires 31 (timeout queued_ls) one_queued) =
      filter (\<lambda>p. p \<noteq> queued_ls) (pendingPermissionRequests one_queued)"
    by blast
  with q have empty: "pendingPermissionRequests (timer_fires 31 0 one_queued) = []"
    by (simp add: queued_ls_def)
  from q rejected empty show ?thesis by simp
qed

text \<open>
  C4, as the claim states it, fails when \<^verbatim>\<open>reset()\<close> comes first. The request is queued at
  time 1 and no tool call ever matches it; after the reset at time 2 the queue and the
  timer table are empty and the promise of the caller is still pending, and the handle
  coming due at time 31 changes nothing.
\<close>

theorem queued_request_reset_counterexample:
  "pendingPermissionRequests (run example_env [(1, Submit ''Bash'' ls), (2, Reset)]) = [] \<and>
   timers (run example_env [(1, Submit ''Bash'' ls), (2, Reset)]) = [] \<and>
   promises (run example_env [(1, Submit ''Bash'' ls), (2, Reset), (31, TimerFires 0)]) =
     [(0, \<lparr> settled = None, reactions = [] \<rparr>)] \<and>
   run example_env [(1, Submit ''Bash'' ls), (2, Reset), (31, TimerFires 0)] =
     run example_env [(1, Submit ''Bash'' ls), (2, Reset)]"
  by (simp add: run_def init_def example_env_def ls_def resolver_defs Let_def)

section \<open>A tool call that meets a queued request\<close>

lemma decision_reaches_caller:
  assumes "map_of (requests s) (msg_id message) = Some (Resolve p)"
    and "map_of (promises s) p = Some \<lparr> settled = None, reactions = [ClearTimeout t, Settle q] \<rparr>"
    and "map_of (promises s) q = Some \<lparr> settled = None, reactions = [] \<rparr>"
    and "q \<noteq> p"
  shows "map_of (promises (permission_handler e now message s)) q =
           Some \<lparr> settled = Some (Inr \<lparr> approved = msg_approved message,
                                         reason = msg_reason message,
                                         mode = msg_mode message \<rparr>),
                  reactions = [] \<rparr>"
  using assms
  by (simp add: permission_handler_def Let_def settle_promise_def clearTimeout_def
      updateAgentState_def update_conv')

text \<open>
  C3. Take any state reached by a run of the resolver in which the queue holds a request
  that matches the \<^verbatim>\<open>tool_use\<close> block of an assistant message given to \<^verbatim>\<open>onMessage\<close>. The scan
  of the queue runs from the last entry to the first, and the first match it finds, the
  entry \<open>k\<close> with no match behind it, is the one taken: it leaves the queue, whose other
  entries keep their order, and its 30 second timer is cleared. The request then goes
  through \<^verbatim>\<open>handlePermissionRequest\<close> with the id of the block: the callback is stored under
  that id, the decision timer is armed, the request is pending in the agent state under
  that id, the notification carries the id, and the new promise is chained to the pending
  promise of the queued caller. For a tool other than the plan-exit tool, a later decision
  for that id resolves the caller's promise to that decision.
\<close>

theorem onMessage_takes_queued_request:
  assumes "k < length (pendingPermissionRequests (run e evs))"
    and "pending_matches e name input (pendingPermissionRequests (run e evs) ! k)"
    and "\<forall>j. k < j \<and> j < length (pendingPermissionRequests (run e evs)) \<longrightarrow>
           \<not> pending_matches e name input (pendingPermissionRequests (run e evs) ! j)"
  shows "let s = run e evs;
             pending = pendingPermissionRequests s ! k;
             s' = onMessage e now (Assistant (Some [ToolUse i name input])) s
         in pendingPermissionRequests s' = splice1 k (pendingPermissionRequests s) \<and>
            pending \<notin> set (pendingPermissionRequests s') \<and>
            map_of (timers s') (timeout pending) = None \<and>
            map_of (timers s') (next_timer s) = Some (DecisionTimeout i) \<and>
            map_of (requests s') i =
              Some (if name = ''exit_plan_mode'' \<or> name = ''ExitPlanMode''
                    then WrappedResolve (next_promise s) else Resolve (next_promise s)) \<and>
            map_of (promises s') (next_promise s) =
              Some \<lparr> settled = None,
                     reactions = [ClearTimeout (next_timer s), Settle (pending_promise pending)] \<rparr> \<and>
            map_of (promises s') (pending_promise pending) =
              Some \<lparr> settled = None, reactions = [] \<rparr> \<and>
            map_of (entries (st_requests (agentState s'))) i =
              Some \<lparr> tool = name, arguments = req_arguments (request pending), createdAt = now \<rparr> \<and>
            map requestId (pushes s') = map requestId (pushes s) @ [i] \<and>
            (\<forall>message now'.
               msg_id message = i \<and> name \<noteq> ''exit_plan_mode'' \<and> name \<noteq> ''ExitPlanMode'' \<longrightarrow>
               map_of (promises (permission_handler e now' message s')) (pending_promise pending) =
                 Some \<lparr> settled = Some (Inr \<lparr> approved = msg_approved message,
                                               reason = msg_reason message,
                                               mode = msg_mode message \<rparr>),
                        reactions = [] \<rparr>)"
proof -
  define s where "s = run e evs"
  define pending where "pending = pendingPermissionRequests s ! k"
  define s1 where "s1 = s\<lparr> toolCalls := toolCalls s @
                     [\<lparr> tc_id = i, tc_name = name, tc_input = input, used = False \<rparr>] \<rparr>"
  define s' where "s' = onMessage e now (Assistant (Some [ToolUse i name input])) s"
  have inv: "resolver_inv s" unfolding s_def by (rule inv_run)
  then have it: "inv_timers s" and ip: "inv_promises s"
    unfolding resolver_inv_def by simp_all
  from assms have k: "k < length (pendingPermissionRequests s)"
    and m: "pending_matches e name input pending"
    and last: "\<forall>j. k < j \<and> j < length (pendingPermissionRequests s) \<longrightarrow>
                 \<not> pending_matches e name input (pendingPermissionRequests s ! j)"
    by (simp_all add: s_def pending_def)
  from m have nm: "req_name (request pending) = name" by (simp add: pending_matches_def)
  from k have mem: "pending \<in> set (pendingPermissionRequests s)" by (simp add: pending_def)
  from scan_pending_last [OF k _ last] m
  have "scan_pending e name input (pendingPermissionRequests s)
          (length (pendingPermissionRequests s)) = Some k"
    by (simp add: pending_def)
  from tool_use_matched [OF this, of now i]
  have eq: "s' = add_reaction (next_promise s) (Settle (pending_promise pending))
       (snd (handlePermissionRequest e now i (request pending) (dequeue k s1)))"
    by (simp add: s'_def s1_def pending_def)
  have d: "timers (dequeue k s1) = AList.delete (timeout pending) (timers s)"
    "pendingPermissionRequests (dequeue k s1) = splice1 k (pendingPermissionRequests s)"
    "promises (dequeue k s1) = promises s" "requests (dequeue k s1) = requests s"
    "agentState (dequeue k s1) = agentState s" "next_timer (dequeue k s1) = next_timer s"
    "next_promise (dequeue k s1) = next_promise s" "pushes (dequeue k s1) = pushes s"
    by (simp_all add: dequeue_def clearTimeout_def s1_def pending_def)
  from queue_timer_bound [OF it mem] have tne: "timeout pending \<noteq> next_timer s" by simp
  from queue_promise_bound [OF ip mem] have pne: "pending_promise pending \<noteq> next_promise s"
    by simp
  from ip mem have unsettled: "map_of (promises s) (pending_promise pending) =
      Some \<lparr> settled = None, reactions = [] \<rparr>"
    unfolding inv_promises_def by blast
  have queue: "pendingPermissionRequests s' = splice1 k (pendingPermissionRequests s)"
    by (simp add: eq handlePermissionRequest_eq add_reaction_def d update_conv')
  from nth_notin_splice1 [OF queue_distinct [OF it] k]
  have gone: "pending \<notin> set (pendingPermissionRequests s')"
    by (simp add: queue pending_def)
  from tne have cleared: "map_of (timers s') (timeout pending) = None"
    by (simp add: eq handlePermissionRequest_eq add_reaction_def d update_conv' delete_conv')
  have armed: "map_of (timers s') (next_timer s) = Some (DecisionTimeout i)"
    by (simp add: eq handlePermissionRequest_eq add_reaction_def d update_conv')
  have callback: "map_of (requests s') i =
      Some (if name = ''exit_plan_mode'' \<or> name = ''ExitPlanMode''
            then WrappedResolve (next_promise s) else Resolve (next_promise s))"
    by (simp add: eq handlePermissionRequest_eq add_reaction_def d update_conv' nm)
  have chained: "map_of (promises s') (next_promise s) =
      Some \<lparr> settled = None,
             reactions = [ClearTimeout (next_timer s), Settle (pending_promise pending)] \<rparr>"
    by (simp add: eq handlePermissionRequest_eq add_reaction_def d update_conv')
  from unsettled pne have caller: "map_of (promises s') (pending_promise pending) =
      Some \<lparr> settled = None, reactions = [] \<rparr>"
    by (simp add: eq handlePermissionRequest_eq add_reaction_def d update_conv')
  have agent: "map_of (entries (st_requests (agentState s'))) i =
      Some \<lparr> tool = name, arguments = req_arguments (request pending), createdAt = now \<rparr>"
    by (simp add: eq handlePermissionRequest_eq add_reaction_def d update_conv' nm entries_def)
  have notified: "map requestId (pushes s') = map requestId (pushes s) @ [i]"
    by (simp add: eq handlePermissionRequest_eq add_reaction_def d update_conv')
  have decided: "map_of (promises (permission_handler e now' message s')) (pending_promise pending) =
        Some \<lparr> settled = Some (Inr \<lparr> approved = msg_approved message,
                                      reason = msg_reason message,
                                      mode = msg_mode message \<rparr>),
               reactions = [] \<rparr>"
    if "msg_id message = i" and "name \<noteq> ''exit_plan_mode''" and "name \<noteq> ''ExitPlanMode''"
    for message now'
  proof -
    from that callback have "map_of (requests s') (msg_id message) = Some (Resolve (next_promise s))"
      by simp
    from decision_reaches_caller [OF this chained caller pne] show ?thesis .
  qed
  from queue gone cleared armed callback chained caller agent notified decided
  show ?thesis
    unfolding Let_def s_def [symmetric] pending_def [symmetric] s'_def [symmetric]
    by blast
qed

text \<open>
  Two identical requests are queued, with promises 0 and 1 and timers 0 and 1, and the
  message with \<^verbatim>\<open>tc_1\<close> arrives: the request queued last is taken, the older one stays queued
  with its timer armed, and an approval of \<^verbatim>\<open>tc_1\<close> resolves promise 1 and not promise 0.
\<close>

theorem onMessage_takes_queued_request_witness:
  "map pending_promise (pendingPermissionRequests two_queued) = [0, 1] \<and>
   pending_matches example_env ''Bash'' ls (pendingPermissionRequests two_queued ! 1) \<and>
   map pending_promise (pendingPermissionRequests
      (onMessage example_env 3 (Assistant (Some [ToolUse ''tc_1'' ''Bash'' ls])) two_queued)) = [0] \<and>
   map_of (timers
      (onMessage example_env 3 (Assistant (Some [ToolUse ''tc_1'' ''Bash'' ls])) two_queued)) 1 = None \<and>
   map_of (requests
      (onMessage example_env 3 (Assistant (Some [ToolUse ''tc_1'' ''Bash'' ls])) two_queued)) ''tc_1'' =
     Some (Resolve 2) \<and>
   map requestId (pushes
      (onMessage example_env 3 (Assistant (Some [ToolUse ''tc_1'' ''Bash'' ls])) two_queued)) =
     [''tc_1''] \<and>
   map_of (promises (permission_handler example_env 4 approve_tc_1
      (onMessage example_env 3 (Assistant (Some [ToolUse ''tc_1'' ''Bash'' ls])) two_queued))) 1 =
     Some \<lparr> settled = Some (Inr \<lparr> approved = True, reason = None, mode = None \<rparr>),
            reactions = [] \<rparr>"
proof -
  let ?evs = "[(1, Submit ''Bash'' ls), (2, Submit ''Bash'' ls)]"
  let ?first = "\<lparr> request = \<lparr> req_addr = 0, req_name = ''Bash'', req_arguments = ls \<rparr>,
                  pending_promise = 0, timeout = 0 \<rparr>"
  let ?second = "\<lparr> request = \<lparr> req_addr = 1, req_name = ''Bash'', req_arguments = ls \<rparr>,
                   pending_promise = 1, timeout = 1 \<rparr>"
  have q: "pendingPermissionRequests two_queued = [?first, ?second]"
    by (simp add: two_queued_def run_def init_def example_env_def ls_def resolver_defs Let_def)
  have counters: "next_promise two_queued = 2" "next_timer two_queued = 2" "pushes two_queued = []"
    by (simp_all add: two_queued_def run_def init_def example_env_def ls_def
        resolver_defs Let_def)
  have m: "pending_matches example_env ''Bash'' ls (pendingPermissionRequests two_queued ! 1)"
    by (simp add: q pending_matches_def example_env_def)
  from q have k: "1 < length (pendingPermissionRequests (run example_env ?evs))"
    by (simp add: two_queued_def)
  from m have m1: "pending_matches example_env ''Bash'' ls
                     (pendingPermissionRequests (run example_env ?evs) ! 1)"
    by (simp add: two_queued_def)
  from q have len: "length (pendingPermissionRequests (run example_env ?evs)) = 2"
    by (simp add: two_queued_def)
  have last: "\<forall>j. 1 < j \<and> j < length (pendingPermissionRequests (run example_env ?evs)) \<longrightarrow>
      \<not> pending_matches example_env ''Bash'' ls (pendingPermissionRequests (run example_env ?evs) ! j)"
    unfolding len by auto
  note taken = onMessage_takes_queued_request [OF k m1 last, of 3 "''tc_1''",
      unfolded Let_def, folded two_queued_def]
  let ?s' = "onMessage example_env 3 (Assistant (Some [ToolUse ''tc_1'' ''Bash'' ls])) two_queued"
  from taken have "pendingPermissionRequests ?s' = splice1 1 (pendingPermissionRequests two_queued)"
    by (elim conjE)
  with q have a: "map pending_promise (pendingPermissionRequests ?s') = [0]"
    by (simp add: splice1_def)
  from taken have "map_of (timers ?s') (timeout (pendingPermissionRequests two_queued ! 1)) = None"
    by (elim conjE)
  with q have b: "map_of (timers ?s') 1 = None" by simp
  from taken have "map_of (requests ?s') ''tc_1'' =
      Some (if ''Bash'' = ''exit_plan_mode'' \<or> ''Bash'' = ''ExitPlanMode''
            then WrappedResolve (next_promise two_queued) else Resolve (next_promise two_queued))"
    by (elim conjE)
  with counters have c: "map_of (requests ?s') ''tc_1'' = Some (Resolve 2)" by simp
  from taken have "map requestId (pushes ?s') = map requestId (pushes two_queued) @ [''tc_1'']"
    by (elim conjE)
  with counters have d: "map requestId (pushes ?s') = [''tc_1'']" by simp
  from taken have "\<forall>message now'.
       msg_id message = ''tc_1'' \<and> ''Bash'' \<noteq> ''exit_plan_mode'' \<and> ''Bash'' \<noteq> ''ExitPlanMode'' \<longrightarrow>
       map_of (promises (permission_handler example_env now' message ?s'))
         (pending_promise (pendingPermissionRequests two_queued ! 1)) =
         Some \<lparr> settled = Some (Inr \<lparr> approved = msg_approved message,
                                       reason = msg_reason message,
                                       mode = msg_mode message \<rparr>),
                reactions = [] \<rparr>"
    by (elim conjE)
  then have "map_of (promises (permission_handler example_env 4 approve_tc_1 ?s'))
         (pending_promise (pendingPermissionRequests two_queued ! 1)) =
         Some \<lparr> settled = Some (Inr \<lparr> approved = msg_approved approve_tc_1,
                                       reason = msg_reason approve_tc_1,
                                       mode = msg_mode approve_tc_1 \<rparr>),
                reactions = [] \<rparr>"
    by (simp add: approve_tc_1_def)
  with q have f: "map_of (promises (permission_handler example_env 4 approve_tc_1 ?s')) 1 =
     Some \<lparr> settled = Some (Inr \<lparr> approved = True, reason = None, mode = None \<rparr>),
            reactions = [] \<rparr>"
    by (simp add: approve_tc_1_def)
  from q m a b c d f show ?thesis by simp
qed

text \<open>
  The example of the specification as a run: \<^verbatim>\<open>submit("Bash", {command: "ls"})\<close> is queued,
  then the message with \<^verbatim>\<open>tc_1\<close> for the same name and arguments arrives and the request is
  handled under the id \<^verbatim>\<open>tc_1\<close>; an approval of \<^verbatim>\<open>tc_1\<close> resolves the promise of the submit.
\<close>

lemma queued_submit_then_record_example:
  "map_of (requests (run example_env
      [(1, Submit ''Bash'' ls),
       (2, Message (Assistant (Some [ToolUse ''tc_1'' ''Bash'' ls])))])) ''tc_1'' =
     Some (Resolve 1) \<and>
   pendingPermissionRequests (run example_env
      [(1, Submit ''Bash'' ls),
       (2, Message (Assistant (Some [ToolUse ''tc_1'' ''Bash'' ls])))]) = [] \<and>
   map_of (promises (run example_env
      [(1, Submit ''Bash'' ls),
       (2, Message (Assistant (Some [ToolUse ''tc_1'' ''Bash'' ls]))),
       (3, Permission approve_tc_1)])) 0 =
     Some \<lparr> settled = Some (Inr \<lparr> approved = True, reason = None, mode = None \<rparr>),
            reactions = [] \<rparr>"
  by (simp add: run_def init_def example_env_def ls_def approve_tc_1_def resolver_defs Let_def)

text \<open>
  The direction of the scan at an example: of two identical queued requests, whose
  promises are 0 and 1, the tool call takes the one queued last and leaves the older one
  waiting.
\<close>

lemma latest_queued_request_is_taken:
  "map pending_promise (pendingPermissionRequests two_queued_then_recorded) = [0] \<and>
   map_option reactions (map_of (promises two_queued_then_recorded) 2) =
     Some [ClearTimeout 2, Settle 1]"
  by (simp add: two_queued_then_recorded_def run_def init_def example_env_def ls_def
      resolver_defs Let_def)

section \<open>Timers that fire late\<close>

lemma get_member_absentD:
  "get_member obj i = Absent \<Longrightarrow> map_of (entries obj) i = None"
  by (cases obj) (auto simp add: get_member_def entries_def split: option.splits if_splits)

lemma timer_after_reset:
  assumes "\<forall>i. map_of (timers (reset now s)) t = Some (DecisionTimeout i) \<longrightarrow>
             i \<notin> set object_prototype_members"
  shows "timer_fires now' t (reset now s) =
           (reset now s)\<lparr>timers := AList.delete t (timers (reset now s))\<rparr>"
proof (cases "map_of (timers (reset now s)) t")
  case None
  then have "t \<notin> fst ` set (timers (reset now s))" by (simp add: map_of_eq_None_iff)
  then have "AList.delete t (timers (reset now s)) = timers (reset now s)" by simp
  with None show ?thesis by (simp add: timer_fires_def)
next
  case (Some a)
  show ?thesis
  proof (cases a)
    case (QueueTimeout req q)
    with Some show ?thesis
      by (simp add: timer_fires_def queue_timeout_def clearTimeout_def reset_eq)
  next
    case (DecisionTimeout i)
    with Some assms have "i \<notin> set object_prototype_members" by simp
    then have "get_member (st_requests (cancel_all now (agentState s))) i = Absent"
      by (simp add: get_member_def cancel_all_def Let_def)
    with Some DecisionTimeout show ?thesis
      by (simp add: timer_fires_def decision_timeout_def clearTimeout_def reset_eq
          updateAgentState_def move_to_completed_absent)
  qed
qed

text \<open>
  C9, as the code has it. A 4.5 minute timer that fires when the read of its id in
  \<^verbatim>\<open>requests\<close> of the agent state gives \<^verbatim>\<open>undefined\<close> (the id is not pending, and it is not
  the name of a member that every plain object inherits) returns the agent state as it
  is: the timer handle is spent, a left-over callback of that id is deleted from
  \<^verbatim>\<open>requests\<close>, and nothing else changes, so the completed entry keeps its status and
  reason. In a state reached by a run of the resolver there is no such callback, and the
  spent handle is the only change. In a state reached by a run, a 30 second timer is armed
  only for a request that is still in the queue, with that request and its promise in its
  closure; a handle that is not armed runs nothing. A timer that fires right after
  \<^verbatim>\<open>reset()\<close> changes nothing but the timer table, unless it is a decision timer for the
  name of an inherited member. The timer knows its request by the id alone: when the
  id is pending in the agent state as the timer fires, whichever request put it there,
  the pending entry is canceled with reason \<^verbatim>\<open>Timeout\<close> and takes the place of the completed
  entry of the id.
\<close>

theorem stale_timer_changes_nothing:
  "(map_of (timers s) t = Some (DecisionTimeout i) \<and>
    get_member (st_requests (agentState s)) i = Absent \<longrightarrow>
      timer_fires now t s =
        s\<lparr> timers := AList.delete t (timers s), requests := AList.delete i (requests s) \<rparr>) \<and>
   (map_of (timers (run e evs)) t = Some (DecisionTimeout i) \<and>
    get_member (st_requests (agentState (run e evs))) i = Absent \<longrightarrow>
      timer_fires now t (run e evs) =
        (run e evs)\<lparr> timers := AList.delete t (timers (run e evs)) \<rparr>) \<and>
   (map_of (timers (run e evs)) t = Some (QueueTimeout req q) \<longrightarrow>
      (\<exists>pending\<in>set (pendingPermissionRequests (run e evs)).
         timeout pending = t \<and> request pending = req \<and> pending_promise pending = q)) \<and>
   (map_of (timers s) t = None \<longrightarrow> timer_fires now t s = s) \<and>
   ((\<forall>j. map_of (timers (reset now0 s)) t = Some (DecisionTimeout j) \<longrightarrow>
          j \<notin> set object_prototype_members) \<longrightarrow>
      timer_fires now t (reset now0 s) =
        (reset now0 s)\<lparr> timers := AList.delete t (timers (reset now0 s)) \<rparr>) \<and>
   (map_of (timers s) t = Some (DecisionTimeout i) \<and>
    map_of (entries (st_requests (agentState s))) i = Some entry \<longrightarrow>
      map_of (entries (st_requests (agentState (timer_fires now t s)))) i = None \<and>
      map_of (entries (completedRequests (agentState (timer_fires now t s)))) i =
        Some \<lparr> request_members = Some entry, completedAt = now,
               status = ''canceled'', status_reason = Some ''Timeout'' \<rparr>)"
proof -
  have pending: "map_of (entries (st_requests (agentState (timer_fires now t s)))) i = None \<and>
      map_of (entries (completedRequests (agentState (timer_fires now t s)))) i =
        Some \<lparr> request_members = Some entry, completedAt = now,
               status = ''canceled'', status_reason = Some ''Timeout'' \<rparr>"
    if armed: "map_of (timers s) t = Some (DecisionTimeout i)"
      and "map_of (entries (st_requests (agentState s))) i = Some entry"
  proof -
    from that(2) have own: "get_member (st_requests (agentState s)) i = Own entry"
      by (rule get_member_own)
    with armed show ?thesis
      by (simp add: timer_fires_def decision_timeout_def clearTimeout_def
          updateAgentState_def move_to_completed_def Let_def entries_def
          update_conv' delete_conv')
  qed
  have decision: "timer_fires now t s' =
        s'\<lparr> timers := AList.delete t (timers s'), requests := AList.delete i (requests s') \<rparr>"
    if "map_of (timers s') t = Some (DecisionTimeout i)"
      and "get_member (st_requests (agentState s')) i = Absent" for s'
    using that by (simp add: timer_fires_def decision_timeout_def clearTimeout_def
        updateAgentState_def move_to_completed_absent)
  have reached: "timer_fires now t (run e evs) =
        (run e evs)\<lparr> timers := AList.delete t (timers (run e evs)) \<rparr>"
    if armed: "map_of (timers (run e evs)) t = Some (DecisionTimeout i)"
      and terminal: "get_member (st_requests (agentState (run e evs))) i = Absent"
  proof -
    have "inv_callbacks (run e evs)"
      using inv_run [of e evs] unfolding resolver_inv_def by simp
    moreover from terminal
    have "map_of (entries (st_requests (agentState (run e evs)))) i = None"
      by (rule get_member_absentD)
    ultimately have "map_of (requests (run e evs)) i = None"
      unfolding inv_callbacks_def by (cases "map_of (requests (run e evs)) i") auto
    then have "i \<notin> fst ` set (requests (run e evs))"
      by (simp add: map_of_eq_None_iff)
    then have "AList.delete i (requests (run e evs)) = requests (run e evs)"
      by simp
    with decision [OF armed terminal] show ?thesis by simp
  qed
  have queued: "\<exists>pending\<in>set (pendingPermissionRequests (run e evs)).
         timeout pending = t \<and> request pending = req \<and> pending_promise pending = q"
    if armed: "map_of (timers (run e evs)) t = Some (QueueTimeout req q)"
  proof -
    have it: "inv_timers (run e evs)"
      using inv_run [of e evs] unfolding resolver_inv_def by simp
    with armed have "t \<in> timeout ` set (pendingPermissionRequests (run e evs))"
      unfolding inv_timers_def by blast
    then obtain pending where mem: "pending \<in> set (pendingPermissionRequests (run e evs))"
      and t: "t = timeout pending"
      by (rule imageE)
    from it mem have "map_of (timers (run e evs)) (timeout pending) =
        Some (QueueTimeout (request pending) (pending_promise pending))"
      unfolding inv_timers_def by blast
    with armed t have "request pending = req" and "pending_promise pending = q" by simp_all
    with mem t show ?thesis by blast
  qed
  have unarmed: "map_of (timers s) t = None \<longrightarrow> timer_fires now t s = s"
    by (simp add: timer_fires_unarmed)
  have after_reset: "timer_fires now t (reset now0 s) =
        (reset now0 s)\<lparr> timers := AList.delete t (timers (reset now0 s)) \<rparr>"
    if "\<forall>j. map_of (timers (reset now0 s)) t = Some (DecisionTimeout j) \<longrightarrow>
          j \<notin> set object_prototype_members"
    using that by (rule timer_after_reset)
  show ?thesis
    by (intro conjI impI; (elim conjE)?;
        (rule decision reached queued unarmed [rule_format] after_reset
              pending [THEN conjunct1] pending [THEN conjunct2]; assumption))
qed

text \<open>
  The decision timer of \<^verbatim>\<open>tc_1\<close> fires at time 9 after the reset at time 5: the entry stays
  canceled by the reset. The armed 30 second timer of the state with one queued request
  belongs to the request in the queue. A handle that was never armed runs nothing, and
  the same decision timer firing after a second reset only spends its handle. When
  \<^verbatim>\<open>tc_1\<close> is recorded and requested again after the reset, the timer of the first request
  cancels the second.
\<close>

theorem stale_timer_changes_nothing_witness:
  "map_of (timers reset_after_pending) 0 = Some (DecisionTimeout ''tc_1'') \<and>
   get_member (st_requests (agentState reset_after_pending)) ''tc_1'' = Absent \<and>
   timer_fires 9 0 reset_after_pending = reset_after_pending\<lparr> timers := [] \<rparr> \<and>
   map_of (entries (completedRequests (agentState (timer_fires 9 0 reset_after_pending)))) ''tc_1'' =
     Some \<lparr> request_members = Some \<lparr> tool = ''Bash'', arguments = ls, createdAt = 2 \<rparr>,
            completedAt = 5, status = ''canceled'',
            status_reason = Some ''Session switched to local mode'' \<rparr> \<and>
   map_of (timers one_queued) 0 = Some (QueueTimeout (request queued_ls) 0) \<and>
   (\<exists>pending\<in>set (pendingPermissionRequests one_queued).
      timeout pending = 0 \<and> request pending = request queued_ls \<and> pending_promise pending = 0) \<and>
   map_of (timers init) 0 = None \<and>
   timer_fires 9 0 init = init \<and>
   timers (reset 6 reset_after_pending) = [(0, DecisionTimeout ''tc_1'')] \<and>
   ''tc_1'' \<notin> set object_prototype_members \<and>
   timer_fires 9 0 (reset 6 reset_after_pending) = (reset 6 reset_after_pending)\<lparr> timers := [] \<rparr> \<and>
   map_of (timers pending_again) 0 = Some (DecisionTimeout ''tc_1'') \<and>
   map_of (entries (st_requests (agentState pending_again))) ''tc_1'' =
     Some \<lparr> tool = ''Bash'', arguments = ls, createdAt = 7 \<rparr> \<and>
   map_of (entries (st_requests (agentState (timer_fires 9 0 pending_again)))) ''tc_1'' = None \<and>
   map_of (entries (completedRequests (agentState (timer_fires 9 0 pending_again)))) ''tc_1'' =
     Some \<lparr> request_members = Some \<lparr> tool = ''Bash'', arguments = ls, createdAt = 7 \<rparr>,
            completedAt = 9, status = ''canceled'', status_reason = Some ''Timeout'' \<rparr>"
proof -
  have armed: "timers reset_after_pending = [(0, DecisionTimeout ''tc_1'')]"
    by (simp add: reset_after_pending_def run_def init_def example_env_def ls_def
        resolver_defs Let_def)
  have terminal: "get_member (st_requests (agentState reset_after_pending)) ''tc_1'' = Absent"
    by (simp add: reset_after_pending_def run_def init_def example_env_def ls_def
        resolver_defs Let_def)
  have completed:
    "map_of (entries (completedRequests (agentState reset_after_pending))) ''tc_1'' =
       Some \<lparr> request_members = Some \<lparr> tool = ''Bash'', arguments = ls, createdAt = 2 \<rparr>,
              completedAt = 5, status = ''canceled'',
              status_reason = Some ''Session switched to local mode'' \<rparr>"
    by (simp add: reset_after_pending_def run_def init_def example_env_def ls_def
        resolver_defs Let_def)
  have queue_timer: "map_of (timers one_queued) 0 = Some (QueueTimeout (request queued_ls) 0)"
    by (simp add: one_queued_def queued_ls_def run_def init_def example_env_def ls_def
        resolver_defs Let_def)
  have name: "''tc_1'' \<notin> set object_prototype_members"
    by (simp add: object_prototype_members_def)
  have again: "timers (reset 6 reset_after_pending) = [(0, DecisionTimeout ''tc_1'')]"
    by (simp add: reset_after_pending_def run_def init_def example_env_def ls_def
        resolver_defs Let_def)
  have unarmed: "map_of (timers init) 0 = None"
    by (simp add: init_def)
  note late = stale_timer_changes_nothing
      [of init 0 "''tc_1''" 9 example_env
          "[(1, Message (Assistant (Some [ToolUse ''tc_1'' ''Bash'' ls]))),
            (2, Submit ''Bash'' ls), (5, Reset)]" "request queued_ls" 0 6
          "\<lparr> tool = ''Bash'', arguments = ls, createdAt = 2 \<rparr>",
       folded reset_after_pending_def]
  from late have "map_of (timers init) 0 = None \<longrightarrow> timer_fires 9 0 init = init"
    by (elim conjE)
  with unarmed have third: "timer_fires 9 0 init = init"
    by (rule rev_mp)
  note twice = stale_timer_changes_nothing
      [of reset_after_pending 0 "''tc_1''" 9 example_env "[]" "request queued_ls" 0 6
          "\<lparr> tool = ''Bash'', arguments = ls, createdAt = 2 \<rparr>"]
  from twice have "(\<forall>j. map_of (timers (reset 6 reset_after_pending)) 0 = Some (DecisionTimeout j) \<longrightarrow>
          j \<notin> set object_prototype_members) \<longrightarrow>
      timer_fires 9 0 (reset 6 reset_after_pending) =
        (reset 6 reset_after_pending)\<lparr> timers := AList.delete 0 (timers (reset 6 reset_after_pending)) \<rparr>"
    by (elim conjE)
  with again name
  have fourth: "timer_fires 9 0 (reset 6 reset_after_pending) =
      (reset 6 reset_after_pending)\<lparr> timers := [] \<rparr>"
    by simp
  from late have "map_of (timers reset_after_pending) 0 = Some (DecisionTimeout ''tc_1'') \<and>
      get_member (st_requests (agentState reset_after_pending)) ''tc_1'' = Absent \<longrightarrow>
      timer_fires 9 0 reset_after_pending =
        reset_after_pending\<lparr> timers := AList.delete 0 (timers reset_after_pending) \<rparr>"
    by (elim conjE)
  with armed terminal
  have first: "timer_fires 9 0 reset_after_pending = reset_after_pending\<lparr> timers := [] \<rparr>"
    by simp
  note queued = stale_timer_changes_nothing
      [of init 0 "''tc_1''" 9 example_env "[(1, Submit ''Bash'' ls)]" "request queued_ls" 0 0
          "\<lparr> tool = ''Bash'', arguments = ls, createdAt = 2 \<rparr>",
       folded one_queued_def]
  from queued have "map_of (timers one_queued) 0 = Some (QueueTimeout (request queued_ls) 0) \<longrightarrow>
      (\<exists>pending\<in>set (pendingPermissionRequests one_queued).
         timeout pending = 0 \<and> request pending = request queued_ls \<and> pending_promise pending = 0)"
    by (elim conjE)
  with queue_timer
  have second: "\<exists>pending\<in>set (pendingPermissionRequests one_queued).
      timeout pending = 0 \<and> request pending = request queued_ls \<and> pending_promise pending = 0"
    by (rule rev_mp)
  have old_timer: "map_of (timers pending_again) 0 = Some (DecisionTimeout ''tc_1'')"
    by (simp add: pending_again_def run_def init_def example_env_def ls_def
        resolver_defs Let_def)
  have new_entry: "map_of (entries (st_requests (agentState pending_again))) ''tc_1'' =
      Some \<lparr> tool = ''Bash'', arguments = ls, createdAt = 7 \<rparr>"
    by (simp add: pending_again_def run_def init_def example_env_def ls_def
        resolver_defs Let_def)
  note reused = stale_timer_changes_nothing
      [of pending_again 0 "''tc_1''" 9 example_env "[]" "request queued_ls" 0 6
          "\<lparr> tool = ''Bash'', arguments = ls, createdAt = 7 \<rparr>"]
  from reused have "map_of (timers pending_again) 0 = Some (DecisionTimeout ''tc_1'') \<and>
      map_of (entries (st_requests (agentState pending_again))) ''tc_1'' =
        Some \<lparr> tool = ''Bash'', arguments = ls, createdAt = 7 \<rparr> \<longrightarrow>
      map_of (entries (st_requests (agentState (timer_fires 9 0 pending_again)))) ''tc_1'' = None \<and>
      map_of (entries (completedRequests (agentState (timer_fires 9 0 pending_again)))) ''tc_1'' =
        Some \<lparr> request_members = Some \<lparr> tool = ''Bash'', arguments = ls, createdAt = 7 \<rparr>,
               completedAt = 9, status = ''canceled'', status_reason = Some ''Timeout'' \<rparr>"
    by (elim conjE)
  with old_timer new_entry
  have fifth: "map_of (entries (st_requests (agentState (timer_fires 9 0 pending_again)))) ''tc_1'' = None \<and>
      map_of (entries (completedRequests (agentState (timer_fires 9 0 pending_again)))) ''tc_1'' =
        Some \<lparr> request_members = Some \<lparr> tool = ''Bash'', arguments = ls, createdAt = 7 \<rparr>,
               completedAt = 9, status = ''canceled'', status_reason = Some ''Timeout'' \<rparr>"
    by simp
  from armed terminal completed first queue_timer second unarmed third again name fourth
    old_timer new_entry fifth
  show ?thesis by simp
qed

text \<open>
  C9, as the claim states it, fails in two ways. The decision \<^verbatim>\<open>tc_1\<close> is reset at time 5,
  which leaves its timer armed; the same id is recorded and requested again, and when
  the old timer fires at time 9 the completed entry of \<^verbatim>\<open>tc_1\<close> passes from the reason of the
  reset to \<^verbatim>\<open>Timeout\<close>. And for the id \<^verbatim>\<open>toString\<close> the timer that fires after the reset finds
  the inherited member and writes a completed entry with reason \<^verbatim>\<open>Timeout\<close> over the one of
  the reset.
\<close>

theorem late_timer_counterexample:
  "map_of (entries (completedRequests (agentState (run example_env
      [(1, Message (Assistant (Some [ToolUse ''tc_1'' ''Bash'' ls]))),
       (2, Submit ''Bash'' ls),
       (5, Reset),
       (6, Message (Assistant (Some [ToolUse ''tc_1'' ''Bash'' ls]))),
       (7, Submit ''Bash'' ls)])))) ''tc_1'' =
     Some \<lparr> request_members = Some \<lparr> tool = ''Bash'', arguments = ls, createdAt = 2 \<rparr>,
            completedAt = 5, status = ''canceled'',
            status_reason = Some ''Session switched to local mode'' \<rparr> \<and>
   map_of (entries (completedRequests (agentState (run example_env
      [(1, Message (Assistant (Some [ToolUse ''tc_1'' ''Bash'' ls]))),
       (2, Submit ''Bash'' ls),
       (5, Reset),
       (6, Message (Assistant (Some [ToolUse ''tc_1'' ''Bash'' ls]))),
       (7, Submit ''Bash'' ls),
       (9, TimerFires 0)])))) ''tc_1'' =
     Some \<lparr> request_members = Some \<lparr> tool = ''Bash'', arguments = ls, createdAt = 7 \<rparr>,
            completedAt = 9, status = ''canceled'', status_reason = Some ''Timeout'' \<rparr> \<and>
   map_of (entries (completedRequests (agentState (run example_env
      [(1, Message (Assistant (Some [ToolUse ''toString'' ''Bash'' ls]))),
       (2, Submit ''Bash'' ls),
       (5, Reset)])))) ''toString'' =
     Some \<lparr> request_members = Some \<lparr> tool = ''Bash'', arguments = ls, createdAt = 2 \<rparr>,
            completedAt = 5, status = ''canceled'',
            status_reason = Some ''Session switched to local mode'' \<rparr> \<and>
   map_of (entries (completedRequests (agentState (run example_env
      [(1, Message (Assistant (Some [ToolUse ''toString'' ''Bash'' ls]))),
       (2, Submit ''Bash'' ls),
       (5, Reset),
       (9, TimerFires 0)])))) ''toString'' =
     Some \<lparr> request_members = None,
            completedAt = 9, status = ''canceled'', status_reason = Some ''Timeout'' \<rparr>"
  by (simp add: run_def init_def example_env_def ls_def resolver_defs Let_def)


end
